theory Spec2Isabelle
  imports Main "HOL-Library.Sublist"
begin

section \<open>WebWarden crawler engine\<close>

text \<open>
  A shallow embedding of the class \<open>CrawlerEngine\<close> (crawl scheduling, rate limiting,
  retry, robots.txt gate, link discovery). Strings are lists of 8-bit characters, read
  as code units below 256; the inputs used below are ASCII.
\<close>

subsection \<open>String helpers of the JavaScript runtime\<close>

definition lower_char :: "char \<Rightarrow> char" where
  "lower_char c =
     (case map_of (zip ''ABCDEFGHIJKLMNOPQRSTUVWXYZ'' ''abcdefghijklmnopqrstuvwxyz'') c of
        Some d \<Rightarrow> d
      | None \<Rightarrow> c)"

text \<open>
  \<open>toLowerCase\<close> on the ASCII letters. The engine only tests whether the lowered line
  starts with an ASCII keyword, and no other character is lowered to an ASCII letter of
  these keywords.
\<close>

definition toLowerCase :: "string \<Rightarrow> string" where
  "toLowerCase s = map lower_char s"

text \<open>
  The white space that \<open>trim\<close> strips, as far as it lies below 256: tab, line feed,
  vertical tab, form feed, carriage return, space and the no-break space U+00A0.
\<close>

definition is_space :: "char \<Rightarrow> bool" where
  "is_space c =
     (c \<in> set [CHR '' '', CHR 0x09, CHR 0x0A, CHR 0x0B, CHR 0x0C, CHR 0x0D, CHR 0xA0])"

definition trim :: "string \<Rightarrow> string" where
  "trim s = rev (dropWhile is_space (rev (dropWhile is_space s)))"

text \<open>\<open>s.split('\n')\<close>: the pieces between newlines; never an empty array.\<close>

fun split_lines :: "string \<Rightarrow> string list" where
  "split_lines [] = [[]]"
| "split_lines (c # cs) =
     (if c = CHR 0x0A then [] # split_lines cs
      else (case split_lines cs of
              [] \<Rightarrow> [[c]]
            | l # ls \<Rightarrow> (c # l) # ls))"

text \<open>\<open>s.includes(t)\<close>: \<open>t\<close> occurs in \<open>s\<close> as a contiguous substring.\<close>

fun includes_str :: "string \<Rightarrow> string \<Rightarrow> bool" where
  "includes_str [] t = (t = [])"
| "includes_str (c # cs) t = (prefix t (c # cs) \<or> includes_str cs t)"

subsection \<open>robots.txt parsing\<close>

text \<open>
  One step of the \<open>for (const line of lines)\<close> loop of \<open>parseRobotsTxt\<close>; the loop
  state is the pair \<open>(userAgentMatch, allowed)\<close>.
\<close>

definition robots_line :: "string \<Rightarrow> string \<Rightarrow> bool \<times> bool \<Rightarrow> string \<Rightarrow> bool \<times> bool" where
  "robots_line userAgent pathname acc line =
     (let userAgentMatch = fst acc; allowed = snd acc in
      if prefix ''user-agent:'' (toLowerCase line) then
        (let agent = trim (drop 11 line)
         in (agent = ''*'' \<or> includes_str userAgent agent, allowed))
      else if userAgentMatch \<and> prefix ''disallow:'' (toLowerCase line) then
        (let disallowPath = trim (drop 9 line)
         in if disallowPath \<noteq> [] \<and> prefix disallowPath pathname
            then (userAgentMatch, False) else (userAgentMatch, allowed))
      else if userAgentMatch \<and> prefix ''allow:'' (toLowerCase line) then
        (let allowPath = trim (drop 6 line)
         in if allowPath \<noteq> [] \<and> prefix allowPath pathname
            then (userAgentMatch, True) else (userAgentMatch, allowed))
      else (userAgentMatch, allowed))"

definition parseRobotsTxt :: "string \<Rightarrow> string \<Rightarrow> string \<Rightarrow> bool" where
  "parseRobotsTxt userAgent robotsText pathname =
     snd (foldl (robots_line userAgent pathname) (False, True)
            (map trim (split_lines robotsText)))"

text \<open>
  The reading of the specification: the rules of the matching user-agent blocks, in
  order, and the decision of the last rule whose non-empty prefix starts the path
  (allow when there is none).
\<close>

datatype robots_rule = Allow string | Disallow string

fun rule_prefix :: "robots_rule \<Rightarrow> string" where
  "rule_prefix (Allow p) = p"
| "rule_prefix (Disallow p) = p"

fun rule_allows :: "robots_rule \<Rightarrow> bool" where
  "rule_allows (Allow p) = True"
| "rule_allows (Disallow p) = False"

fun active_rules :: "string \<Rightarrow> bool \<Rightarrow> string list \<Rightarrow> robots_rule list" where
  "active_rules userAgent active [] = []"
| "active_rules userAgent active (line # rest) =
     (if prefix ''user-agent:'' (toLowerCase line) then
        active_rules userAgent
          (trim (drop 11 line) = ''*'' \<or> includes_str userAgent (trim (drop 11 line))) rest
      else if active \<and> prefix ''disallow:'' (toLowerCase line) then
        Disallow (trim (drop 9 line)) # active_rules userAgent active rest
      else if active \<and> prefix ''allow:'' (toLowerCase line) then
        Allow (trim (drop 6 line)) # active_rules userAgent active rest
      else active_rules userAgent active rest)"

definition rule_matches :: "string \<Rightarrow> robots_rule \<Rightarrow> bool" where
  "rule_matches pathname r = (rule_prefix r \<noteq> [] \<and> prefix (rule_prefix r) pathname)"

definition last_match_wins :: "robots_rule list \<Rightarrow> string \<Rightarrow> bool" where
  "last_match_wins rules pathname =
     (case rev (filter (rule_matches pathname) rules) of
        [] \<Rightarrow> True
      | r # _ \<Rightarrow> rule_allows r)"

definition decide :: "string \<Rightarrow> bool \<Rightarrow> robots_rule list \<Rightarrow> bool" where
  "decide pathname allowed rules =
     (case rev (filter (rule_matches pathname) rules) of
        [] \<Rightarrow> allowed
      | r # _ \<Rightarrow> rule_allows r)"

definition robots_body :: string where
  "robots_body =
     ''User-agent: *'' @ [CHR 0x0A] @ ''Disallow: /admin'' @ [CHR 0x0A] @ ''Allow: /public''"

definition robots_body_overlap :: string where
  "robots_body_overlap =
     ''User-agent: *'' @ [CHR 0x0A] @ ''Allow: /admin/public'' @ [CHR 0x0A] @ ''Disallow: /admin''"

subsection \<open>The platform: URLs, documents, responses, errors\<close>

text \<open>
  The browser's \<open>URL\<close> class, \<open>DOMParser\<close> and \<open>fetch\<close> are not code of the
  repository; they are parameters of the model. \<open>parse_url s\<close> is \<open>new URL(s)\<close>
  (\<open>None\<close> when it throws), \<open>resolve_url h b\<close> is \<open>new URL(h, b).href\<close>,
  \<open>parse_html\<close> gives what the DOM queries of the engine read from a body.
\<close>

record url_obj =
  protocol :: string
  host :: string
  hostname :: string
  pathname :: string
  href :: string

record document =
  doc_title :: string
  doc_h1 :: string
  doc_description :: string
  doc_keywords :: string
  doc_headings :: "(string \<times> string list) list"
  anchors :: "(string \<times> string) list"
  doc_images :: nat
  doc_words :: nat

record response =
  status :: nat
  content_type :: "string option"
  body :: string

definition ok :: "response \<Rightarrow> bool" where
  "ok r = (200 \<le> status r \<and> status r \<le> 299)"

datatype js_error =
    AbortError
  | NetworkError
  | HttpError nat
  | UnsupportedContentType string
  | InvalidStartUrl

datatype net_result = Responds response | Fails

datatype fetch_kind = RobotsFetch | PageFetch | LinkFetch

record config =
  maxConcurrency :: int
  requestDelay :: int
  timeout :: int
  maxRetries :: int
  respectRobots :: bool
  userAgent :: string
  maxPages :: int
  maxDepth :: int

text \<open>
  The world a crawl runs in. \<open>net n u\<close> is what the network does with the \<open>n\<close>-th call
  of \<open>fetch\<close> when it asks for \<open>u\<close>: the latency in milliseconds and the result.
  \<open>stop_at\<close> is the clock time at which the user calls \<open>stopCrawl\<close>, if ever.
\<close>

record world =
  config :: config
  parse_url :: "string \<Rightarrow> url_obj option"
  resolve_url :: "string \<Rightarrow> string \<Rightarrow> string option"
  parse_html :: "string \<Rightarrow> document"
  net :: "nat \<Rightarrow> string \<Rightarrow> int \<times> net_result"
  stop_at :: "int option"

subsection \<open>The engine's state\<close>

record work_item =
  url :: string
  depth :: int
  referrer :: "string option"
  anchorText :: "string option"

record page_data =
  page_url :: string
  page_title :: string
  page_description :: string
  page_keywords :: string
  page_headings :: "(string \<times> string list) list"
  linkCount :: nat
  imageCount :: nat
  wordCount :: nat
  page_depth :: int
  page_referrer :: "string option"
  crawledAt :: int
  contentLength :: nat
  loadTime :: int

record crawl_error =
  err_url :: string
  err :: js_error
  timestamp :: int

text \<open>
  \<open>fetch_log\<close> and \<open>gate_log\<close> are instrumentation: every call of \<open>fetch\<close> (its start
  time, URL, the code path that made it, and whether the abort signal was still clear so
  that a request really went out) and every value assigned to \<open>lastRequestTime\<close>.
  \<open>aborted\<close> is \<open>controller.signal.aborted\<close>; \<open>now\<close> is the clock \<open>Date.now()\<close>.
\<close>

record fetch_event =
  ev_time :: int
  ev_url :: string
  ev_kind :: fetch_kind
  ev_sent :: bool

record crawler =
  visited :: "string set"
  queue :: "work_item list"
  index :: "page_data list"
  errors :: "crawl_error list"
  robotsCache :: "string \<rightharpoonup> bool"
  activeRequests :: int
  stopFlag :: bool
  aborted :: bool
  processed :: nat
  failed :: nat
  skipped :: nat
  startTime :: int
  lastRequestTime :: int
  now :: int
  fetch_log :: "fetch_event list"
  gate_log :: "int list"

subsection \<open>Time, cancellation and fetch\<close>

text \<open>
  \<open>delay ms\<close> suspends for \<open>ms\<close> milliseconds. \<open>stopCrawl\<close> runs between two turns of
  the event loop, so it takes effect during a suspension: it sets \<open>stopFlag\<close> and aborts
  the controller.
\<close>

definition stop_within :: "world \<Rightarrow> int \<Rightarrow> int \<Rightarrow> int option" where
  "stop_within W t0 t1 =
     (case stop_at W of
        None \<Rightarrow> None
      | Some s \<Rightarrow> if t0 \<le> s \<and> s < t1 then Some s else None)"

definition stop_fires :: "world \<Rightarrow> int \<Rightarrow> int \<Rightarrow> bool" where
  "stop_fires W t0 t1 = (stop_within W t0 t1 \<noteq> None)"

definition delay :: "world \<Rightarrow> int \<Rightarrow> crawler \<Rightarrow> crawler" where
  "delay W ms st =
     (let t1 = now st + max 0 ms; fired = stop_fires W (now st) t1
      in st\<lparr>now := t1, stopFlag := stopFlag st \<or> fired, aborted := aborted st \<or> fired\<rparr>)"

text \<open>
  \<open>fetch(url, {signal})\<close>, with the timer of \<open>fetchWithTimeout\<close> when \<open>tmo\<close> is given.
  An aborted signal rejects at once. Otherwise the call ends at the first of: the user's
  stop, the timer (which calls \<open>this.controller.abort()\<close> on the crawl's one
  controller), the network's answer. The body is taken to arrive with the response.
\<close>

definition fetch ::
  "world \<Rightarrow> fetch_kind \<Rightarrow> int option \<Rightarrow> string \<Rightarrow> crawler \<Rightarrow> (js_error + response) \<times> crawler" where
  "fetch W kind tmo u st =
     (let st1 = st\<lparr>fetch_log := fetch_log st @
                  [\<lparr>ev_time = now st, ev_url = u, ev_kind = kind, ev_sent = \<not> aborted st\<rparr>]\<rparr>
      in if aborted st then (Inl AbortError, st1)
         else
           (let lat = fst (net W (length (fetch_log st)) u);
                res = snd (net W (length (fetch_log st)) u);
                t_resp = now st + max 0 lat;
                t_end = (case tmo of None \<Rightarrow> t_resp | Some ms \<Rightarrow> min t_resp (now st + max 0 ms))
            in case stop_within W (now st) t_end of
                 Some s \<Rightarrow>
                   (Inl AbortError, st1\<lparr>now := s, stopFlag := True, aborted := True\<rparr>)
               | None \<Rightarrow>
                   if t_end < t_resp then
                     (Inl AbortError, st1\<lparr>now := t_end, aborted := True\<rparr>)
                   else
                     (case res of
                        Fails \<Rightarrow> (Inl NetworkError, st1\<lparr>now := t_end\<rparr>)
                      | Responds r \<Rightarrow> (Inr r, st1\<lparr>now := t_end\<rparr>))))"

definition fetchWithTimeout ::
  "world \<Rightarrow> fetch_kind \<Rightarrow> string \<Rightarrow> crawler \<Rightarrow> (js_error + response) \<times> crawler" where
  "fetchWithTimeout W kind u st = fetch W kind (Some (timeout (config W))) u st"

subsection \<open>URL predicates\<close>

definition isValidUrl :: "world \<Rightarrow> string \<Rightarrow> bool" where
  "isValidUrl W u =
     (case parse_url W u of
        None \<Rightarrow> False
      | Some uo \<Rightarrow> protocol uo \<in> set [''http:'', ''https:''])"

definition isSameDomain :: "world \<Rightarrow> string \<Rightarrow> string \<Rightarrow> bool" where
  "isSameDomain W url1 url2 =
     (case parse_url W url1 of
        None \<Rightarrow> False
      | Some a \<Rightarrow> (case parse_url W url2 of
                    None \<Rightarrow> False
                  | Some b \<Rightarrow> hostname a = hostname b))"

subsection \<open>The robots.txt gate\<close>

definition robots_url :: "url_obj \<Rightarrow> string" where
  "robots_url uo = protocol uo @ ''//'' @ host uo @ ''/robots.txt''"

definition isAllowedByRobots :: "world \<Rightarrow> string \<Rightarrow> crawler \<Rightarrow> bool \<times> crawler" where
  "isAllowedByRobots W u st =
     (case parse_url W u of
        None \<Rightarrow> (True, st)
      | Some urlObj \<Rightarrow>
          (let robotsUrl = robots_url urlObj in
           case robotsCache st robotsUrl of
             Some b \<Rightarrow> (b, st)
           | None \<Rightarrow>
               (case fetch W RobotsFetch None robotsUrl st of
                  (Inl e, st1) \<Rightarrow> (True, st1)
                | (Inr r, st1) \<Rightarrow>
                    if \<not> ok r then
                      (True, st1\<lparr>robotsCache := (robotsCache st1)(robotsUrl \<mapsto> True)\<rparr>)
                    else
                      (let isAllowed =
                             parseRobotsTxt (userAgent (config W)) (body r) (pathname urlObj)
                       in (isAllowed,
                           st1\<lparr>robotsCache := (robotsCache st1)(robotsUrl \<mapsto> isAllowed)\<rparr>)))))"

subsection \<open>Fetching and recording one page\<close>

definition extractTitle :: "document \<Rightarrow> string \<Rightarrow> string" where
  "extractTitle doc u =
     (if doc_title doc \<noteq> [] then doc_title doc
      else if doc_h1 doc \<noteq> [] then doc_h1 doc
      else u)"

definition parsePageData ::
  "world \<Rightarrow> string \<Rightarrow> string \<Rightarrow> int \<Rightarrow> string option \<Rightarrow> crawler \<Rightarrow> page_data" where
  "parsePageData W u html d ref st =
     (let doc = parse_html W html in
      \<lparr>page_url = u,
       page_title = extractTitle doc u,
       page_description = doc_description doc,
       page_keywords = doc_keywords doc,
       page_headings = doc_headings doc,
       linkCount = length (anchors doc),
       imageCount = doc_images doc,
       wordCount = doc_words doc,
       page_depth = d,
       page_referrer = ref,
       crawledAt = now st,
       contentLength = length html,
       loadTime = now st - startTime st\<rparr>)"

text \<open>The \<open>try\<close> block of \<open>crawlPage\<close>: \<open>Inl\<close> is the error it throws.\<close>

definition crawlPage_try ::
  "world \<Rightarrow> string \<Rightarrow> int \<Rightarrow> string option \<Rightarrow> crawler \<Rightarrow> (js_error + page_data) \<times> crawler" where
  "crawlPage_try W u d ref st =
     (case fetchWithTimeout W PageFetch u st of
        (Inl e, st1) \<Rightarrow> (Inl e, st1)
      | (Inr resp, st1) \<Rightarrow>
          if \<not> ok resp then (Inl (HttpError (status resp)), st1)
          else
            (let contentType = (case content_type resp of None \<Rightarrow> [] | Some c \<Rightarrow> c) in
             if \<not> includes_str contentType ''text/html''
             then (Inl (UnsupportedContentType contentType), st1)
             else (Inr (parsePageData W u (body resp) d ref st1), st1)))"

text \<open>
  \<open>crawlPage\<close>: \<open>Inr None\<close> is \<open>return null\<close>, \<open>Inl e\<close> is \<open>throw e\<close>. The
  \<open>finally\<close> block decrements \<open>activeRequests\<close> on every way out of the \<open>try\<close>.
\<close>

function crawlPage ::
  "world \<Rightarrow> string \<Rightarrow> int \<Rightarrow> string option \<Rightarrow> int \<Rightarrow> crawler
     \<Rightarrow> (js_error + page_data option) \<times> crawler" where
  "crawlPage W u d ref retryCount st =
     (if u \<in> visited st then (Inr None, st)
      else
        (let chk = (if respectRobots (config W) then isAllowedByRobots W u st else (True, st));
             st1 = snd chk
         in if \<not> fst chk then (Inr None, st1\<lparr>skipped := skipped st1 + 1\<rparr>)
            else
              (let st2 = st1\<lparr>visited := insert u (visited st1),
                              activeRequests := activeRequests st1 + 1\<rparr>;
                   att = crawlPage_try W u d ref st2;
                   st3 = snd att
               in case fst att of
                    Inr pageData \<Rightarrow>
                      (Inr (Some pageData), st3\<lparr>activeRequests := activeRequests st3 - 1\<rparr>)
                  | Inl e \<Rightarrow>
                      if retryCount < maxRetries (config W) \<and> e \<noteq> AbortError then
                        (let again = crawlPage W u d ref (retryCount + 1)
                                       (delay W (1000 * (retryCount + 1)) st3);
                             st5 = snd again
                         in (fst again, st5\<lparr>activeRequests := activeRequests st5 - 1\<rparr>))
                      else (Inl e, st3\<lparr>activeRequests := activeRequests st3 - 1\<rparr>))))"
  by pat_completeness auto
termination
  by (relation "measure (\<lambda>(W, u, d, ref, retryCount, st). nat (maxRetries (config W) - retryCount))")
     auto

declare crawlPage.simps [simp del]

subsection \<open>Link discovery\<close>

text \<open>
  The \<open>.map\<close> callback of \<open>extractLinks\<close>: \<open>None\<close> is its \<open>null\<close> (empty
  \<open>href\<close>, or \<open>new URL(href, url)\<close> throws).
\<close>

definition make_link :: "world \<Rightarrow> string \<Rightarrow> int \<Rightarrow> string \<times> string \<Rightarrow> work_item option" where
  "make_link W u nextDepth a =
     (if fst a = [] then None
      else (case resolve_url W (fst a) u of
              None \<Rightarrow> None
            | Some absoluteUrl \<Rightarrow>
                Some \<lparr>url = absoluteUrl, depth = nextDepth, referrer = Some u,
                      anchorText = Some (snd a)\<rparr>))"

text \<open>The \<open>.filter\<close> predicate of \<open>extractLinks\<close>.\<close>

definition keep_link :: "world \<Rightarrow> crawler \<Rightarrow> url_obj \<Rightarrow> work_item option \<Rightarrow> bool" where
  "keep_link W st baseUrl l =
     (case l of
        None \<Rightarrow> False
      | Some link \<Rightarrow>
          isValidUrl W (url link) \<and> url link \<notin> visited st \<and>
          isSameDomain W (url link) (href baseUrl))"

fun somes :: "'a option list \<Rightarrow> 'a list" where
  "somes [] = []"
| "somes (None # xs) = somes xs"
| "somes (Some x # xs) = x # somes xs"

definition extractLinks :: "world \<Rightarrow> string \<Rightarrow> int \<Rightarrow> crawler \<Rightarrow> work_item list \<times> crawler" where
  "extractLinks W u nextDepth st =
     (case fetchWithTimeout W LinkFetch u st of
        (Inl e, st1) \<Rightarrow> ([], st1)
      | (Inr resp, st1) \<Rightarrow>
          (let doc = parse_html W (body resp) in
           case parse_url W u of
             None \<Rightarrow> ([], st1)
           | Some baseUrl \<Rightarrow>
               (somes (take 20 (filter (keep_link W st1 baseUrl)
                                  (map (make_link W u nextDepth) (anchors doc)))),
                st1)))"

subsection \<open>The rate limiter and the worker\<close>

text \<open>
  The closure that \<open>crawlWorker\<close> hands to \<open>rateLimitedRequest\<close>. \<open>Some e\<close> is the
  error it rejects with.
\<close>

definition requestFn :: "world \<Rightarrow> work_item \<Rightarrow> crawler \<Rightarrow> js_error option \<times> crawler" where
  "requestFn W item st =
     (case crawlPage W (url item) (depth item) (referrer item) 0 st of
        (Inl e, st1) \<Rightarrow> (Some e, st1)
      | (Inr None, st1) \<Rightarrow> (None, st1)
      | (Inr (Some pageData), st1) \<Rightarrow>
          (let st2 = st1\<lparr>index := index st1 @ [pageData], processed := processed st1 + 1\<rparr>
           in if depth item < maxDepth (config W) then
                (let ex = extractLinks W (url item) (depth item + 1) st2;
                     st3 = snd ex
                 in (None, st3\<lparr>queue := queue st3 @ fst ex\<rparr>))
              else (None, st2)))"

text \<open>
  One turn of the loop of \<open>processRequestQueue\<close> up to the call of the request: wait
  until \<open>requestDelay\<close> has passed since \<open>lastRequestTime\<close>, then record the dispatch.
\<close>

definition gate :: "world \<Rightarrow> crawler \<Rightarrow> crawler" where
  "gate W st =
     (let timeSinceLastRequest = now st - lastRequestTime st;
          st1 = (if timeSinceLastRequest < requestDelay (config W)
                 then delay W (requestDelay (config W) - timeSinceLastRequest) st
                 else st)
      in st1\<lparr>lastRequestTime := now st1, gate_log := gate_log st1 @ [now st1]\<rparr>)"

definition rateLimitedRequest :: "world \<Rightarrow> work_item \<Rightarrow> crawler \<Rightarrow> js_error option \<times> crawler" where
  "rateLimitedRequest W item st = requestFn W item (gate W st)"

definition handleCrawlError :: "string \<Rightarrow> js_error \<Rightarrow> crawler \<Rightarrow> crawler" where
  "handleCrawlError u e st =
     st\<lparr>failed := failed st + 1,
        errors := errors st @ [\<lparr>err_url = u, err = e, timestamp = now st\<rparr>]\<rparr>"

definition loop_cond :: "world \<Rightarrow> crawler \<Rightarrow> bool" where
  "loop_cond W st =
     (\<not> stopFlag st \<and> queue st \<noteq> [] \<and> int (length (index st)) < maxPages (config W))"

text \<open>
  The body of the \<open>while\<close> loop of \<open>crawlWorker\<close>, entered when \<open>loop_cond\<close>
  holds. The request queue of the rate limiter holds the one request of the one running
  worker, and its loop tests \<open>stopFlag\<close> right after the worker did, with no suspension
  in between; so the request is always taken up. \<open>onProgress\<close> only reads the state.
\<close>

definition worker_iter :: "world \<Rightarrow> crawler \<Rightarrow> crawler" where
  "worker_iter W st =
     (case queue st of
        [] \<Rightarrow> st
      | item # rest \<Rightarrow>
          (let st0 = st\<lparr>queue := rest\<rparr> in
           if url item \<in> visited st0 then st0
           else
             (let r = rateLimitedRequest W item st0;
                  st1 = (case fst r of
                           Some e \<Rightarrow> handleCrawlError (url item) e (snd r)
                         | None \<Rightarrow> snd r)
              in delay W 100 st1)))"

definition crawl_step :: "world \<Rightarrow> crawler \<Rightarrow> crawler" where
  "crawl_step W st = (if loop_cond W st then worker_iter W st else st)"

function crawlWorker :: "world \<Rightarrow> crawler \<Rightarrow> crawler" where
  "crawlWorker W st = (if loop_cond W st then crawlWorker W (worker_iter W st) else st)"
  by pat_completeness auto

text \<open>
  \<open>processCrawlQueue\<close> starts \<open>maxConcurrency\<close> workers in one synchronous loop. Each
  call of \<open>crawlWorker\<close> runs to its first \<open>await\<close> before the next one starts: the
  first worker takes the seed, the only item of the queue, and suspends in
  \<open>rateLimitedRequest\<close>; every later worker finds the queue empty and returns at once
  (lemma \<open>crawlWorker_idle\<close>). The crawl is the run of the first worker.
\<close>

definition processCrawlQueue :: "world \<Rightarrow> crawler \<Rightarrow> crawler" where
  "processCrawlQueue W st = (if 0 < maxConcurrency (config W) then crawlWorker W st else st)"

text \<open>The engine after its constructor, \<open>reset()\<close> and a new controller, at time \<open>t0\<close>.\<close>

definition fresh :: "int \<Rightarrow> crawler" where
  "fresh t0 =
     \<lparr>visited = {}, queue = [], index = [], errors = [], robotsCache = Map.empty,
      activeRequests = 0, stopFlag = False, aborted = False,
      processed = 0, failed = 0, skipped = 0,
      startTime = t0, lastRequestTime = 0, now = t0, fetch_log = [], gate_log = []\<rparr>"

definition seed_item :: "string \<Rightarrow> work_item" where
  "seed_item startUrl = \<lparr>url = startUrl, depth = 0, referrer = None, anchorText = None\<rparr>"

definition start_state :: "string \<Rightarrow> int \<Rightarrow> crawler" where
  "start_state startUrl t0 = (fresh t0)\<lparr>queue := [seed_item startUrl]\<rparr>"

text \<open>The engine at the moment \<open>onComplete\<close> is called, for a crawl that was started.\<close>

definition run_crawl :: "world \<Rightarrow> string \<Rightarrow> int \<Rightarrow> crawler" where
  "run_crawl W startUrl t0 = processCrawlQueue W (start_state startUrl t0)"

text \<open>
  \<open>startCrawl\<close> at clock time \<open>t0\<close>: \<open>Inl\<close> is the error thrown for a bad start URL,
  \<open>Inr\<close> the engine when \<open>onComplete\<close> is called. The callbacks only read the state.
\<close>

definition startCrawl :: "world \<Rightarrow> string \<Rightarrow> int \<Rightarrow> js_error + crawler" where
  "startCrawl W startUrl t0 =
     (if \<not> isValidUrl W startUrl then Inl InvalidStartUrl
      else Inr (run_crawl W startUrl t0))"

subsection \<open>Observations on the logs\<close>

definition new_events :: "crawler \<Rightarrow> crawler \<Rightarrow> fetch_event list" where
  "new_events st st' = drop (length (fetch_log st)) (fetch_log st')"

definition is_kind :: "fetch_kind \<Rightarrow> fetch_event \<Rightarrow> bool" where
  "is_kind k e = (ev_kind e = k)"

definition page_fetches :: "fetch_event list \<Rightarrow> string list" where
  "page_fetches evs = map ev_url (filter (is_kind PageFetch) evs)"

definition robots_fetches :: "fetch_event list \<Rightarrow> string list" where
  "robots_fetches evs = map ev_url (filter (is_kind RobotsFetch) evs)"

definition link_fetches :: "fetch_event list \<Rightarrow> string list" where
  "link_fetches evs = map ev_url (filter (is_kind LinkFetch) evs)"

definition non_robots :: "fetch_event list \<Rightarrow> fetch_event list" where
  "non_robots evs = filter (\<lambda>e. ev_kind e \<noteq> RobotsFetch) evs"

fun spaced :: "int \<Rightarrow> int list \<Rightarrow> bool" where
  "spaced d [] = True"
| "spaced d [a] = True"
| "spaced d (a # b # r) = (a + d \<le> b \<and> spaced d (b # r))"

text \<open>The robots test at the head of \<open>crawlPage\<close>: the answer and the state after it.\<close>

definition robots_check :: "world \<Rightarrow> string \<Rightarrow> crawler \<Rightarrow> bool \<times> crawler" where
  "robots_check W u st = (if respectRobots (config W) then isAllowedByRobots W u st else (True, st))"

text \<open>The state in which \<open>crawlPage\<close> enters its \<open>try\<close> block.\<close>

definition try_state :: "world \<Rightarrow> string \<Rightarrow> crawler \<Rightarrow> crawler" where
  "try_state W u st =
     (snd (robots_check W u st))
       \<lparr>visited := insert u (visited (snd (robots_check W u st))),
        activeRequests := activeRequests (snd (robots_check W u st)) + 1\<rparr>"

text \<open>\<open>response.headers.get('content-type') || ''\<close>.\<close>

definition content_type_of :: "response \<Rightarrow> string" where
  "content_type_of r = (case content_type r of None \<Rightarrow> [] | Some c \<Rightarrow> c)"

definition page_event :: "string \<Rightarrow> crawler \<Rightarrow> fetch_event" where
  "page_event u st = \<lparr>ev_time = now st, ev_url = u, ev_kind = PageFetch, ev_sent = \<not> aborted st\<rparr>"

definition link_event :: "string \<Rightarrow> crawler \<Rightarrow> fetch_event" where
  "link_event u st = \<lparr>ev_time = now st, ev_url = u, ev_kind = LinkFetch, ev_sent = \<not> aborted st\<rparr>"

text \<open>The log entries that the robots test of \<open>crawlPage\<close> adds: one fetch on a cache miss.\<close>

definition robots_events :: "world \<Rightarrow> string \<Rightarrow> crawler \<Rightarrow> fetch_event list" where
  "robots_events W u st =
     (case parse_url W u of
        None \<Rightarrow> []
      | Some uo \<Rightarrow>
          if robotsCache st (robots_url uo) = None
          then [\<lparr>ev_time = now st, ev_url = robots_url uo, ev_kind = RobotsFetch,
                 ev_sent = \<not> aborted st\<rparr>]
          else [])"

definition check_events :: "world \<Rightarrow> string \<Rightarrow> crawler \<Rightarrow> fetch_event list" where
  "check_events W u st = (if respectRobots (config W) then robots_events W u st else [])"

text \<open>
  How the engine moves from one state to a later one: \<open>visited\<close> and the robots cache
  only grow, and the log is extended by events \<open>evs\<close> such that no robots.txt is fetched
  for a key that was cached, and the page fetches of \<open>crawlPage\<close> are for distinct URLs
  that were not visited before and are visited afterwards.
\<close>

definition grows :: "crawler \<Rightarrow> crawler \<Rightarrow> bool" where
  "grows s s' =
     (visited s \<subseteq> visited s' \<and> robotsCache s \<subseteq>\<^sub>m robotsCache s' \<and>
      (\<exists>evs. fetch_log s' = fetch_log s @ evs \<and>
         set (robots_fetches evs) \<inter> dom (robotsCache s) = {} \<and>
         distinct (page_fetches evs) \<and>
         set (page_fetches evs) \<inter> visited s = {} \<and>
         set (page_fetches evs) \<subseteq> visited s'))"

text \<open>
  What the \<open>n\<close>-th call of \<open>fetch\<close>, made without a timer and logged as \<open>e\<close>, got
  for an answer: the response, or \<open>None\<close> when the call was rejected (signal already
  aborted, stop during the call, failure in the network).
\<close>

definition robots_reply :: "world \<Rightarrow> nat \<Rightarrow> fetch_event \<Rightarrow> response option" where
  "robots_reply W n e =
     (if \<not> ev_sent e then None
      else
        (case stop_within W (ev_time e) (ev_time e + max 0 (fst (net W n (ev_url e)))) of
           Some s \<Rightarrow> None
         | None \<Rightarrow>
             (case snd (net W n (ev_url e)) of
                Fails \<Rightarrow> None
              | Responds r \<Rightarrow> Some r)))"

definition robots_event :: "string \<Rightarrow> crawler \<Rightarrow> fetch_event" where
  "robots_event k st =
     \<lparr>ev_time = now st, ev_url = k, ev_kind = RobotsFetch, ev_sent = \<not> aborted st\<rparr>"

text \<open>
  The invariant of the robots cache: a robots.txt fetch of the log that got a response
  has its key in the cache, with the value true when the status was not a success, and
  no later robots.txt fetch of the log is for the same key.
\<close>

definition robots_settled :: "world \<Rightarrow> crawler \<Rightarrow> bool" where
  "robots_settled W s =
     (\<forall>i r. i < length (fetch_log s) \<longrightarrow>
        ev_kind (fetch_log s ! i) = RobotsFetch \<longrightarrow>
        robots_reply W i (fetch_log s ! i) = Some r \<longrightarrow>
          robotsCache s (ev_url (fetch_log s ! i)) \<noteq> None \<and>
          (\<not> ok r \<longrightarrow> robotsCache s (ev_url (fetch_log s ! i)) = Some True) \<and>
          (\<forall>j. i < j \<longrightarrow> j < length (fetch_log s) \<longrightarrow>
             ev_kind (fetch_log s ! j) = RobotsFetch \<longrightarrow>
             ev_url (fetch_log s ! j) \<noteq> ev_url (fetch_log s ! i)))"

text \<open>The invariant of the rate limiter.\<close>

definition gate_inv :: "world \<Rightarrow> crawler \<Rightarrow> bool" where
  "gate_inv W st =
     (spaced (requestDelay (config W)) (gate_log st) \<and>
      (gate_log st \<noteq> [] \<longrightarrow> last (gate_log st) = lastRequestTime st))"

text \<open>
  A property of the platform's \<open>URL\<close> class that crawls rely on: parsing the \<open>href\<close>
  of a parsed URL again gives the same host name.
\<close>

definition href_stable :: "world \<Rightarrow> bool" where
  "href_stable W =
     (\<forall>u a b. parse_url W u = Some a \<longrightarrow> parse_url W (href a) = Some b \<longrightarrow>
        hostname b = hostname a)"

text \<open>
  Link discovery in two steps: the links of all hyperlinks of a document, in document
  order, and the test a link has to pass.
\<close>

definition candidate_links :: "world \<Rightarrow> string \<Rightarrow> int \<Rightarrow> document \<Rightarrow> work_item list" where
  "candidate_links W u nextDepth doc = somes (map (make_link W u nextDepth) (anchors doc))"

definition link_ok :: "world \<Rightarrow> crawler \<Rightarrow> url_obj \<Rightarrow> work_item \<Rightarrow> bool" where
  "link_ok W st baseUrl link =
     (isValidUrl W (url link) \<and> url link \<notin> visited st \<and>
      isSameDomain W (url link) (href baseUrl))"

text \<open>Every queued item and every recorded page has the host name of the start URL.\<close>

definition host_inv :: "world \<Rightarrow> string \<Rightarrow> crawler \<Rightarrow> bool" where
  "host_inv W startUrl st =
     ((\<forall>i \<in> set (queue st). isSameDomain W (url i) startUrl) \<and>
      (\<forall>p \<in> set (index st). isSameDomain W (page_url p) startUrl))"

subsection \<open>A small site, for concrete runs\<close>

definition default_config :: config where
  "default_config =
     \<lparr>maxConcurrency = 3, requestDelay = 1000, timeout = 10000, maxRetries = 2,
      respectRobots = True, userAgent = ''WebWarden Crawler 2.0'', maxPages = 100, maxDepth = 3\<rparr>"

definition site_url :: "string \<Rightarrow> string \<Rightarrow> string \<Rightarrow> string \<times> url_obj" where
  "site_url proto h p =
     (proto @ ''//'' @ h @ p,
      \<lparr>protocol = proto, host = h, hostname = h, pathname = p, href = proto @ ''//'' @ h @ p\<rparr>)"

definition site_urls :: "(string \<times> url_obj) list" where
  "site_urls =
     [site_url ''https:'' ''example.com'' ''/'',
      site_url ''https:'' ''example.com'' ''/a'',
      site_url ''https:'' ''example.com'' ''/b'',
      site_url ''http:'' ''example.com'' ''/admin'',
      site_url ''https:'' ''other.org'' ''/'']"

definition site_links :: "((string \<times> string) \<times> string) list" where
  "site_links =
     [((''/a'', ''https://example.com/''), ''https://example.com/a''),
      ((''/b'', ''https://example.com/''), ''https://example.com/b''),
      ((''http://example.com/admin'', ''https://example.com/''), ''http://example.com/admin''),
      ((''https://other.org/'', ''https://example.com/''), ''https://other.org/'')]"

definition empty_doc :: document where
  "empty_doc =
     \<lparr>doc_title = [], doc_h1 = [], doc_description = [], doc_keywords = [],
      doc_headings = [], anchors = [], doc_images = 0, doc_words = 0\<rparr>"

definition home_html :: string where
  "home_html =
     ''<title>Home</title><a href=/a>A</a><a href=https://other.org/>O</a><a href=/b>B</a>''"

definition home_doc :: document where
  "home_doc =
     empty_doc\<lparr>doc_title := ''Home'',
       anchors := [(''/a'', ''A''), (''https://other.org/'', ''O''), (''/b'', ''B'')],
       doc_words := 4\<rparr>"

definition admin_html :: string where
  "admin_html = ''<a href=http://example.com/admin>X</a><a href=http://example.com/admin>Y</a>''"

definition admin_doc :: document where
  "admin_doc =
     empty_doc\<lparr>anchors := [(''http://example.com/admin'', ''X''),
                            (''http://example.com/admin'', ''Y'')],
       doc_words := 2\<rparr>"

definition leaf_html :: string where
  "leaf_html = ''<p>leaf</p>''"

definition html_page :: "string \<Rightarrow> response" where
  "html_page b = \<lparr>status = 200, content_type = Some ''text/html; charset=utf-8'', body = b\<rparr>"

definition not_found :: response where
  "not_found = \<lparr>status = 404, content_type = Some ''text/html'', body = ''Not Found''\<rparr>"

definition robots_deny_admin :: response where
  "robots_deny_admin =
     \<lparr>status = 200, content_type = Some ''text/plain'',
      body = ''User-agent: *'' @ [CHR 0x0A] @ ''Disallow: /admin''\<rparr>"

definition seed_url :: string where
  "seed_url = ''https://example.com/''"

definition home_url_obj :: url_obj where
  "home_url_obj = snd (site_url ''https:'' ''example.com'' ''/'')"

definition site_dom :: "string \<Rightarrow> document" where
  "site_dom h = (if h = home_html then home_doc else if h = admin_html then admin_doc else empty_doc)"

definition site_net :: "nat \<Rightarrow> string \<Rightarrow> int \<times> net_result" where
  "site_net n u =
     (if u = ''https://example.com/'' then (50, Responds (html_page home_html))
      else (50, Responds (html_page leaf_html)))"

definition site_resolve :: "string \<Rightarrow> string \<Rightarrow> string option" where
  "site_resolve h b = map_of site_links (h, b)"

text \<open>The site answers every request after 50 ms; nobody stops the crawl.\<close>

definition site :: world where
  "site =
     \<lparr>config = default_config, parse_url = map_of site_urls, resolve_url = site_resolve,
      parse_html = site_dom, net = site_net, stop_at = None\<rparr>"

definition world_plain :: world where
  "world_plain = site\<lparr>config := default_config\<lparr>respectRobots := False, maxDepth := 1\<rparr>\<rparr>"

text \<open>Every request is answered with status 404.\<close>

definition net_404 :: "nat \<Rightarrow> string \<Rightarrow> int \<times> net_result" where
  "net_404 n u = (50, Responds not_found)"

definition world_404 :: world where
  "world_404 = site\<lparr>config := default_config\<lparr>respectRobots := False\<rparr>, net := net_404\<rparr>"

definition world_404_noretry :: world where
  "world_404_noretry =
     site\<lparr>config := default_config\<lparr>respectRobots := False, maxRetries := 0\<rparr>, net := net_404\<rparr>"

text \<open>The user calls \<open>stopCrawl\<close> at time 1020, while the first fetch is in flight.\<close>

definition world_stop :: world where
  "world_stop = site\<lparr>config := default_config\<lparr>respectRobots := False\<rparr>, stop_at := Some 1020\<rparr>"

text \<open>Every request fails in the network after 50 ms.\<close>

definition net_down :: "nat \<Rightarrow> string \<Rightarrow> int \<times> net_result" where
  "net_down n u = (50, Fails)"

definition world_down :: world where
  "world_down = site\<lparr>config := default_config\<lparr>respectRobots := False\<rparr>, net := net_down\<rparr>"

text \<open>The page \<open>/a\<close> takes 20 s to answer, longer than the timeout of 10 s.\<close>

definition net_slow :: "nat \<Rightarrow> string \<Rightarrow> int \<times> net_result" where
  "net_slow n u =
     (if u = ''https://example.com/'' then (50, Responds (html_page home_html))
      else if u = ''https://example.com/a'' then (20000, Responds (html_page leaf_html))
      else (50, Responds (html_page leaf_html)))"

definition world_slow :: world where
  "world_slow =
     site\<lparr>config := default_config\<lparr>respectRobots := False, maxDepth := 1\<rparr>, net := net_slow\<rparr>"

text \<open>
  robots.txt disallows \<open>/admin\<close>; the home page links twice to
  \<open>http://example.com/admin\<close>.
\<close>

definition net_robots :: "nat \<Rightarrow> string \<Rightarrow> int \<times> net_result" where
  "net_robots n u =
     (if u = ''https://example.com/robots.txt'' \<or> u = ''http://example.com/robots.txt''
      then (10, Responds robots_deny_admin)
      else if u = ''https://example.com/'' then (50, Responds (html_page admin_html))
      else (50, Responds (html_page leaf_html)))"

definition world_robots :: world where
  "world_robots = site\<lparr>config := default_config\<lparr>maxDepth := 1\<rparr>, net := net_robots\<rparr>"

text \<open>The request for robots.txt fails in the network; pages are served.\<close>

definition net_robots_down :: "nat \<Rightarrow> string \<Rightarrow> int \<times> net_result" where
  "net_robots_down n u =
     (if u = ''https://example.com/robots.txt'' then (10, Fails)
      else if u = ''https://example.com/'' then (50, Responds (html_page home_html))
      else (50, Responds (html_page leaf_html)))"

definition world_robots_down :: world where
  "world_robots_down = site\<lparr>config := default_config\<lparr>maxDepth := 1\<rparr>, net := net_robots_down\<rparr>"

text \<open>robots.txt is answered with status 404.\<close>

definition net_robots_404 :: "nat \<Rightarrow> string \<Rightarrow> int \<times> net_result" where
  "net_robots_404 n u =
     (if u = ''https://example.com/robots.txt'' then (10, Responds not_found)
      else if u = ''https://example.com/'' then (50, Responds (html_page home_html))
      else (50, Responds (html_page leaf_html)))"

definition world_robots_404 :: world where
  "world_robots_404 = site\<lparr>config := default_config\<lparr>maxDepth := 1\<rparr>, net := net_robots_404\<rparr>"

text \<open>
  The site changes between two requests: the first request for the home page gets the
  page with three links, every later request gets a page without links.
\<close>

definition net_changing :: "nat \<Rightarrow> string \<Rightarrow> int \<times> net_result" where
  "net_changing n u =
     (if n = 0 then (50, Responds (html_page home_html))
      else (50, Responds (html_page leaf_html)))"

definition world_changing :: world where
  "world_changing =
     site\<lparr>config := default_config\<lparr>respectRobots := False, maxDepth := 1\<rparr>, net := net_changing\<rparr>"

text \<open>Every request is answered with a PDF document.\<close>

definition pdf_response :: response where
  "pdf_response = \<lparr>status = 200, content_type = Some ''application/pdf'', body = ''%PDF-1.7''\<rparr>"

definition net_pdf :: "nat \<Rightarrow> string \<Rightarrow> int \<times> net_result" where
  "net_pdf n u = (50, Responds pdf_response)"

definition world_pdf :: world where
  "world_pdf =
     site\<lparr>config := default_config\<lparr>respectRobots := False, maxRetries := 0\<rparr>, net := net_pdf\<rparr>"

text \<open>
  Both robots.txt of the host, for https and for http, are answered with status 404; the
  home page links to \<open>http://example.com/admin\<close>.
\<close>

definition net_two_schemes :: "nat \<Rightarrow> string \<Rightarrow> int \<times> net_result" where
  "net_two_schemes n u =
     (if u = ''https://example.com/robots.txt'' \<or> u = ''http://example.com/robots.txt''
      then (10, Responds not_found)
      else if u = ''https://example.com/'' then (50, Responds (html_page admin_html))
      else (50, Responds (html_page leaf_html)))"

definition world_two_schemes :: world where
  "world_two_schemes = site\<lparr>config := default_config\<lparr>maxDepth := 1\<rparr>, net := net_two_schemes\<rparr>"

subsection \<open>Facts about the robots.txt parser\<close>

lemma decide_Nil: "decide p a [] = a"
  by (simp add: decide_def)

lemma decide_Cons:
  "decide p a (r # rs) = decide p (if rule_matches p r then rule_allows r else a) rs"
  by (cases "rev (filter (rule_matches p) rs)") (simp_all add: decide_def)

lemma robots_fold_last_match:
  "snd (foldl (robots_line ua p) (active, allowed) ls) = decide p allowed (active_rules ua active ls)"
proof (induction ls arbitrary: active allowed)
  case Nil
  show ?case by (simp add: decide_Nil)
next
  case (Cons l ls)
  consider (ua) "prefix ''user-agent:'' (toLowerCase l)"
    | (dis) "\<not> prefix ''user-agent:'' (toLowerCase l)" "active"
        "prefix ''disallow:'' (toLowerCase l)"
    | (al) "\<not> prefix ''user-agent:'' (toLowerCase l)"
        "\<not> (active \<and> prefix ''disallow:'' (toLowerCase l))" "active"
        "prefix ''allow:'' (toLowerCase l)"
    | (other) "\<not> prefix ''user-agent:'' (toLowerCase l)"
        "\<not> (active \<and> prefix ''disallow:'' (toLowerCase l))"
        "\<not> (active \<and> prefix ''allow:'' (toLowerCase l))"
    by blast
  then show ?case
  proof cases
    case ua
    then have "robots_line ua p (active, allowed) l =
        (trim (drop 11 l) = ''*'' \<or> includes_str ua (trim (drop 11 l)), allowed)"
      by (simp add: robots_line_def Let_def)
    with ua show ?thesis by (simp add: Cons.IH)
  next
    case dis
    then have "robots_line ua p (active, allowed) l =
        (active, if rule_matches p (Disallow (trim (drop 9 l))) then False else allowed)"
      by (simp add: robots_line_def rule_matches_def Let_def)
    with dis show ?thesis by (simp add: Cons.IH decide_Cons)
  next
    case al
    then have "robots_line ua p (active, allowed) l =
        (active, if rule_matches p (Allow (trim (drop 6 l))) then True else allowed)"
      by (simp add: robots_line_def rule_matches_def Let_def)
    with al show ?thesis by (simp add: Cons.IH decide_Cons)
  next
    case other
    then have "robots_line ua p (active, allowed) l = (active, allowed)"
      by (auto simp: robots_line_def Let_def)
    with other show ?thesis by (auto simp: Cons.IH)
  qed
qed

lemma parseRobotsTxt_last_match:
  "parseRobotsTxt ua text p = last_match_wins (active_rules ua False (map trim (split_lines text))) p"
  by (simp add: parseRobotsTxt_def robots_fold_last_match decide_def last_match_wins_def)

lemma robots_body_lines:
  "map trim (split_lines robots_body) = [''User-agent: *'', ''Disallow: /admin'', ''Allow: /public'']"
  by (simp add: robots_body_def trim_def is_space_def)

lemma robots_body_overlap_lines:
  "map trim (split_lines robots_body_overlap) =
     [''User-agent: *'', ''Allow: /admin/public'', ''Disallow: /admin'']"
  by (simp add: robots_body_overlap_def trim_def is_space_def)

lemma robots_example_admin: "parseRobotsTxt ua robots_body ''/admin/x'' = False"
  by (simp add: parseRobotsTxt_def robots_body_lines robots_line_def toLowerCase_def
      lower_char_def trim_def is_space_def)

subsection \<open>What each operation leaves unchanged\<close>

lemma delay_frame:
  "visited (delay W ms st) = visited st"
  "queue (delay W ms st) = queue st"
  "index (delay W ms st) = index st"
  "errors (delay W ms st) = errors st"
  "robotsCache (delay W ms st) = robotsCache st"
  "activeRequests (delay W ms st) = activeRequests st"
  "processed (delay W ms st) = processed st"
  "failed (delay W ms st) = failed st"
  "skipped (delay W ms st) = skipped st"
  "startTime (delay W ms st) = startTime st"
  "lastRequestTime (delay W ms st) = lastRequestTime st"
  "fetch_log (delay W ms st) = fetch_log st"
  "gate_log (delay W ms st) = gate_log st"
  by (simp_all add: delay_def Let_def)

lemma fetch_frame:
  "visited (snd (fetch W k tmo u st)) = visited st"
  "queue (snd (fetch W k tmo u st)) = queue st"
  "index (snd (fetch W k tmo u st)) = index st"
  "errors (snd (fetch W k tmo u st)) = errors st"
  "robotsCache (snd (fetch W k tmo u st)) = robotsCache st"
  "activeRequests (snd (fetch W k tmo u st)) = activeRequests st"
  "processed (snd (fetch W k tmo u st)) = processed st"
  "failed (snd (fetch W k tmo u st)) = failed st"
  "skipped (snd (fetch W k tmo u st)) = skipped st"
  "startTime (snd (fetch W k tmo u st)) = startTime st"
  "lastRequestTime (snd (fetch W k tmo u st)) = lastRequestTime st"
  "gate_log (snd (fetch W k tmo u st)) = gate_log st"
  by (simp_all add: fetch_def Let_def split: net_result.splits option.splits)

lemma fetch_log_fetch:
  "fetch_log (snd (fetch W k tmo u st)) =
     fetch_log st @ [\<lparr>ev_time = now st, ev_url = u, ev_kind = k, ev_sent = \<not> aborted st\<rparr>]"
  by (simp add: fetch_def Let_def split: net_result.splits option.splits)

lemma fetchWithTimeout_frame:
  "visited (snd (fetchWithTimeout W k u st)) = visited st"
  "queue (snd (fetchWithTimeout W k u st)) = queue st"
  "index (snd (fetchWithTimeout W k u st)) = index st"
  "errors (snd (fetchWithTimeout W k u st)) = errors st"
  "robotsCache (snd (fetchWithTimeout W k u st)) = robotsCache st"
  "activeRequests (snd (fetchWithTimeout W k u st)) = activeRequests st"
  "processed (snd (fetchWithTimeout W k u st)) = processed st"
  "failed (snd (fetchWithTimeout W k u st)) = failed st"
  "skipped (snd (fetchWithTimeout W k u st)) = skipped st"
  "startTime (snd (fetchWithTimeout W k u st)) = startTime st"
  "lastRequestTime (snd (fetchWithTimeout W k u st)) = lastRequestTime st"
  "gate_log (snd (fetchWithTimeout W k u st)) = gate_log st"
  by (simp_all add: fetchWithTimeout_def fetch_frame)

lemma fetch_log_fetchWithTimeout:
  "fetch_log (snd (fetchWithTimeout W k u st)) =
     fetch_log st @ [\<lparr>ev_time = now st, ev_url = u, ev_kind = k, ev_sent = \<not> aborted st\<rparr>]"
  by (simp add: fetchWithTimeout_def fetch_log_fetch)

lemma isAllowedByRobots_frame:
  "visited (snd (isAllowedByRobots W u st)) = visited st"
  "queue (snd (isAllowedByRobots W u st)) = queue st"
  "index (snd (isAllowedByRobots W u st)) = index st"
  "errors (snd (isAllowedByRobots W u st)) = errors st"
  "activeRequests (snd (isAllowedByRobots W u st)) = activeRequests st"
  "processed (snd (isAllowedByRobots W u st)) = processed st"
  "failed (snd (isAllowedByRobots W u st)) = failed st"
  "skipped (snd (isAllowedByRobots W u st)) = skipped st"
  "startTime (snd (isAllowedByRobots W u st)) = startTime st"
  "lastRequestTime (snd (isAllowedByRobots W u st)) = lastRequestTime st"
  "gate_log (snd (isAllowedByRobots W u st)) = gate_log st"
  by (simp_all add: isAllowedByRobots_def Let_def fetch_frame case_prod_beta split: option.splits sum.splits)

lemma crawlPage_try_frame:
  "visited (snd (crawlPage_try W u d ref st)) = visited st"
  "queue (snd (crawlPage_try W u d ref st)) = queue st"
  "index (snd (crawlPage_try W u d ref st)) = index st"
  "errors (snd (crawlPage_try W u d ref st)) = errors st"
  "robotsCache (snd (crawlPage_try W u d ref st)) = robotsCache st"
  "activeRequests (snd (crawlPage_try W u d ref st)) = activeRequests st"
  "processed (snd (crawlPage_try W u d ref st)) = processed st"
  "failed (snd (crawlPage_try W u d ref st)) = failed st"
  "skipped (snd (crawlPage_try W u d ref st)) = skipped st"
  "startTime (snd (crawlPage_try W u d ref st)) = startTime st"
  "lastRequestTime (snd (crawlPage_try W u d ref st)) = lastRequestTime st"
  "gate_log (snd (crawlPage_try W u d ref st)) = gate_log st"
  by (simp_all add: crawlPage_try_def Let_def fetchWithTimeout_frame case_prod_beta split: sum.splits)


lemma crawlPage_visited: "u \<in> visited st \<Longrightarrow> crawlPage W u d ref rc st = (Inr None, st)"
  by (simp add: crawlPage.simps)

text \<open>
  The recursive call of \<open>crawlPage\<close> always finds the URL in \<open>visited\<close>, where the
  first attempt put it, and returns \<open>null\<close>: \<open>crawlPage\<close> without its recursion.
\<close>

lemma crawlPage_unfold:
  "u \<notin> visited st \<Longrightarrow>
   crawlPage W u d ref rc st =
     (let chk = (if respectRobots (config W) then isAllowedByRobots W u st else (True, st));
          st1 = snd chk
      in if \<not> fst chk then (Inr None, st1\<lparr>skipped := skipped st1 + 1\<rparr>)
         else
           (let st2 = st1\<lparr>visited := insert u (visited st1),
                           activeRequests := activeRequests st1 + 1\<rparr>;
                att = crawlPage_try W u d ref st2;
                st3 = snd att
            in case fst att of
                 Inr pageData \<Rightarrow>
                   (Inr (Some pageData), st3\<lparr>activeRequests := activeRequests st3 - 1\<rparr>)
               | Inl e \<Rightarrow>
                   if rc < maxRetries (config W) \<and> e \<noteq> AbortError then
                     (Inr None, (delay W (1000 * (rc + 1)) st3)
                                  \<lparr>activeRequests := activeRequests st3 - 1\<rparr>)
                   else (Inl e, st3\<lparr>activeRequests := activeRequests st3 - 1\<rparr>)))"
  by (subst crawlPage.simps)
     (simp add: Let_def crawlPage_visited crawlPage_try_frame delay_frame split: sum.splits)

lemma crawlPage_frame:
  "queue (snd (crawlPage W u d ref rc st)) = queue st"
  "index (snd (crawlPage W u d ref rc st)) = index st"
  "errors (snd (crawlPage W u d ref rc st)) = errors st"
  "processed (snd (crawlPage W u d ref rc st)) = processed st"
  "failed (snd (crawlPage W u d ref rc st)) = failed st"
  "startTime (snd (crawlPage W u d ref rc st)) = startTime st"
  "lastRequestTime (snd (crawlPage W u d ref rc st)) = lastRequestTime st"
  "gate_log (snd (crawlPage W u d ref rc st)) = gate_log st"
  by (cases "u \<in> visited st"; simp add: crawlPage_visited crawlPage_unfold Let_def
        crawlPage_try_frame isAllowedByRobots_frame delay_frame split: sum.splits)+

lemma extractLinks_frame:
  "visited (snd (extractLinks W u nd st)) = visited st"
  "queue (snd (extractLinks W u nd st)) = queue st"
  "index (snd (extractLinks W u nd st)) = index st"
  "errors (snd (extractLinks W u nd st)) = errors st"
  "robotsCache (snd (extractLinks W u nd st)) = robotsCache st"
  "activeRequests (snd (extractLinks W u nd st)) = activeRequests st"
  "processed (snd (extractLinks W u nd st)) = processed st"
  "failed (snd (extractLinks W u nd st)) = failed st"
  "skipped (snd (extractLinks W u nd st)) = skipped st"
  "startTime (snd (extractLinks W u nd st)) = startTime st"
  "lastRequestTime (snd (extractLinks W u nd st)) = lastRequestTime st"
  "gate_log (snd (extractLinks W u nd st)) = gate_log st"
  by (simp_all add: extractLinks_def Let_def fetchWithTimeout_frame case_prod_beta split: sum.splits option.splits)

lemma gate_frame:
  "visited (gate W st) = visited st"
  "queue (gate W st) = queue st"
  "index (gate W st) = index st"
  "errors (gate W st) = errors st"
  "robotsCache (gate W st) = robotsCache st"
  "activeRequests (gate W st) = activeRequests st"
  "processed (gate W st) = processed st"
  "failed (gate W st) = failed st"
  "skipped (gate W st) = skipped st"
  "startTime (gate W st) = startTime st"
  "fetch_log (gate W st) = fetch_log st"
  by (simp_all add: gate_def Let_def delay_frame)

lemma handleCrawlError_frame:
  "visited (handleCrawlError u e st) = visited st"
  "queue (handleCrawlError u e st) = queue st"
  "index (handleCrawlError u e st) = index st"
  "robotsCache (handleCrawlError u e st) = robotsCache st"
  "activeRequests (handleCrawlError u e st) = activeRequests st"
  "stopFlag (handleCrawlError u e st) = stopFlag st"
  "aborted (handleCrawlError u e st) = aborted st"
  "processed (handleCrawlError u e st) = processed st"
  "skipped (handleCrawlError u e st) = skipped st"
  "startTime (handleCrawlError u e st) = startTime st"
  "lastRequestTime (handleCrawlError u e st) = lastRequestTime st"
  "now (handleCrawlError u e st) = now st"
  "fetch_log (handleCrawlError u e st) = fetch_log st"
  "gate_log (handleCrawlError u e st) = gate_log st"
  by (simp_all add: handleCrawlError_def)


lemma length_somes: "length (somes xs) \<le> length xs"
  by (induction xs rule: somes.induct) auto

lemma extractLinks_length: "length (fst (extractLinks W u nd st)) \<le> 20"
proof -
  have "length (somes (take 20 xs)) \<le> 20" for xs :: "work_item option list"
    using length_somes [of "take 20 xs"] by simp
  then show ?thesis
    by (simp add: extractLinks_def Let_def case_prod_beta split: sum.splits option.splits)
qed

text \<open>A request records no page, or one page followed by at most 20 new queue items.\<close>

lemma requestFn_cases:
  "(index (snd (requestFn W item st)) = index st \<and> queue (snd (requestFn W item st)) = queue st) \<or>
   (\<exists>pd links. index (snd (requestFn W item st)) = index st @ [pd] \<and>
       queue (snd (requestFn W item st)) = queue st @ links \<and> length links \<le> 20)"
proof (cases "crawlPage W (url item) (depth item) (referrer item) 0 st")
  case (Pair r st1)
  have fr: "index st1 = index st" "queue st1 = queue st"
    using crawlPage_frame(2,1) [of W "url item" "depth item" "referrer item" 0 st] Pair by simp_all
  show ?thesis
  proof (cases r)
    case (Inl e)
    with Pair fr show ?thesis by (simp add: requestFn_def)
  next
    case (Inr po)
    show ?thesis
    proof (cases po)
      case None
      with Pair Inr fr show ?thesis by (simp add: requestFn_def)
    next
      case (Some pd)
      show ?thesis
      proof (cases "depth item < maxDepth (config W)")
        case True
        with Pair Inr Some fr show ?thesis
          using extractLinks_length
          by (simp add: requestFn_def Let_def extractLinks_frame)
      next
        case False
        with Pair Inr Some fr show ?thesis by (simp add: requestFn_def Let_def)
      qed
    qed
  qed
qed

lemma worker_iter_measure:
  assumes "loop_cond W st"
  shows "21 * nat (maxPages (config W) - int (length (index (worker_iter W st)))) +
           length (queue (worker_iter W st))
         < 21 * nat (maxPages (config W) - int (length (index st))) + length (queue st)"
proof -
  from assms obtain item rest where q: "queue st = item # rest"
    by (cases "queue st") (auto simp: loop_cond_def)
  from assms have lt: "int (length (index st)) < maxPages (config W)"
    by (simp add: loop_cond_def)
  let ?st0 = "st\<lparr>queue := rest\<rparr>"
  show ?thesis
  proof (cases "url item \<in> visited st")
    case True
    with q show ?thesis by (simp add: worker_iter_def)
  next
    case False
    let ?g = "gate W ?st0"
    let ?r = "requestFn W item ?g"
    have ix: "index (worker_iter W st) = index (snd ?r)"
      and qu: "queue (worker_iter W st) = queue (snd ?r)"
      using q False
      by (simp_all add: worker_iter_def Let_def rateLimitedRequest_def delay_frame
          handleCrawlError_frame split: option.splits)
    have g: "index ?g = index st" "queue ?g = rest"
      by (simp_all add: gate_frame)
    from requestFn_cases [of W item ?g] show ?thesis
    proof (elim disjE exE conjE)
      assume "index (snd ?r) = index ?g" "queue (snd ?r) = queue ?g"
      with ix qu g q show ?thesis by simp
    next
      fix pd links
      assume a: "index (snd ?r) = index ?g @ [pd]" "queue (snd ?r) = queue ?g @ links"
        "length links \<le> 20"
      have "nat (maxPages (config W) - int (length (index st))) =
              Suc (nat (maxPages (config W) - int (length (index st) + 1)))"
        using lt by simp
      with a ix qu g q show ?thesis by simp
    qed
  qed
qed

termination crawlWorker
  by (relation "measure (\<lambda>(W, st). 21 * nat (maxPages (config W) - int (length (index st))) +
                   length (queue st))")
     (simp_all add: worker_iter_measure)

declare crawlWorker.simps [simp del]

lemma crawlWorker_idle: "queue st = [] \<Longrightarrow> crawlWorker W st = st"
  by (subst crawlWorker.simps) (simp add: loop_cond_def)

subsection \<open>The worker loop\<close>

lemma requestFn_frame:
  "errors (snd (requestFn W item st)) = errors st"
  "failed (snd (requestFn W item st)) = failed st"
  "startTime (snd (requestFn W item st)) = startTime st"
  "lastRequestTime (snd (requestFn W item st)) = lastRequestTime st"
  "gate_log (snd (requestFn W item st)) = gate_log st"
  by (simp_all add: requestFn_def Let_def case_prod_beta crawlPage_frame extractLinks_frame
      split: sum.splits option.splits)

lemma worker_iter_skip:
  "queue st = item # rest \<Longrightarrow> url item \<in> visited st \<Longrightarrow> worker_iter W st = st\<lparr>queue := rest\<rparr>"
  by (simp add: worker_iter_def)

lemma worker_iter_run:
  "queue st = item # rest \<Longrightarrow> url item \<notin> visited st \<Longrightarrow>
   worker_iter W st =
     delay W 100
       (case fst (requestFn W item (gate W (st\<lparr>queue := rest\<rparr>))) of
          Some e \<Rightarrow> handleCrawlError (url item) e (snd (requestFn W item (gate W (st\<lparr>queue := rest\<rparr>))))
        | None \<Rightarrow> snd (requestFn W item (gate W (st\<lparr>queue := rest\<rparr>))))"
  by (simp add: worker_iter_def Let_def rateLimitedRequest_def)

lemma loop_cond_queue: "loop_cond W st \<Longrightarrow> \<exists>item rest. queue st = item # rest"
  by (cases "queue st") (auto simp: loop_cond_def)

text \<open>An invariant of the loop body holds when the worker returns, and after every step.\<close>

lemma crawlWorker_invariant:
  "P st \<Longrightarrow> (\<And>s. P s \<Longrightarrow> loop_cond W s \<Longrightarrow> P (worker_iter W s)) \<Longrightarrow> P (crawlWorker W st)"
proof (induction W st rule: crawlWorker.induct)
  case (1 W st)
  show ?case
  proof (cases "loop_cond W st")
    case True
    have "P (worker_iter W st)" using "1.prems" True by blast
    then have "P (crawlWorker W (worker_iter W st))"
      using "1.IH" [OF True] "1.prems"(2) by blast
    with True show ?thesis by (subst crawlWorker.simps) simp
  next
    case False
    with "1.prems"(1) show ?thesis by (subst crawlWorker.simps) simp
  qed
qed

lemma crawl_steps_invariant:
  assumes "P st" and "\<And>s. P s \<Longrightarrow> loop_cond W s \<Longrightarrow> P (worker_iter W s)"
  shows "P ((crawl_step W ^^ n) st)"
proof (induction n)
  case 0
  show ?case using assms(1) by simp
next
  case (Suc n)
  then show ?case using assms(2) by (simp add: crawl_step_def)
qed

lemma crawlWorker_steps: "\<exists>n. crawlWorker W st = (crawl_step W ^^ n) st"
proof (induction W st rule: crawlWorker.induct)
  case (1 W st)
  show ?case
  proof (cases "loop_cond W st")
    case True
    then obtain n where "crawlWorker W (worker_iter W st) = (crawl_step W ^^ n) (worker_iter W st)"
      using 1 by blast
    with True have "crawlWorker W st = (crawl_step W ^^ Suc n) st"
      by (subst crawlWorker.simps) (simp add: funpow_swap1 crawl_step_def)
    then show ?thesis by blast
  next
    case False
    then have "crawlWorker W st = (crawl_step W ^^ 0) st"
      by (subst crawlWorker.simps) simp
    then show ?thesis by blast
  qed
qed

lemma processCrawlQueue_invariant:
  assumes "P st" and "\<And>s. P s \<Longrightarrow> loop_cond W s \<Longrightarrow> P (worker_iter W s)"
  shows "P (processCrawlQueue W st)"
  using assms crawlWorker_invariant [of P st W] by (simp add: processCrawlQueue_def)

subsection \<open>The page cap\<close>

lemma worker_iter_index_length: "length (index (worker_iter W st)) \<le> Suc (length (index st))"
proof (cases "queue st")
  case Nil
  then show ?thesis by (simp add: worker_iter_def)
next
  case (Cons item rest)
  show ?thesis
  proof (cases "url item \<in> visited st")
    case True
    with Cons show ?thesis by (simp add: worker_iter_skip)
  next
    case False
    have "length (index (snd (requestFn W item (gate W (st\<lparr>queue := rest\<rparr>))))) \<le> Suc (length (index st))"
      using requestFn_cases [of W item "gate W (st\<lparr>queue := rest\<rparr>)"]
      by (auto simp: gate_frame)
    with Cons False show ?thesis
      by (simp add: worker_iter_run delay_frame handleCrawlError_frame split: option.splits)
  qed
qed

lemma page_cap_step:
  "int (length (index s)) \<le> maxPages (config W) \<Longrightarrow> loop_cond W s \<Longrightarrow>
   int (length (index (worker_iter W s))) \<le> maxPages (config W)"
  using worker_iter_index_length [of W s] by (simp add: loop_cond_def)

subsection \<open>Spacing of the rate limiter's dispatches\<close>

lemma spaced_snoc:
  "spaced d (xs @ [g]) = (spaced d xs \<and> (xs \<noteq> [] \<longrightarrow> last xs + d \<le> g))"
  by (induction d xs rule: spaced.induct) auto

lemma gate_time: "lastRequestTime st + requestDelay (config W) \<le> lastRequestTime (gate W st)"
  by (simp add: gate_def Let_def delay_def)

lemma gate_log_gate: "gate_log (gate W st) = gate_log st @ [lastRequestTime (gate W st)]"
  by (simp add: gate_def Let_def delay_frame)

lemma gate_inv_gate: "gate_inv W st \<Longrightarrow> gate_inv W (gate W st)"
  using gate_time [of st W] by (simp add: gate_inv_def gate_log_gate spaced_snoc)

lemma gate_inv_cong:
  "gate_log s' = gate_log s \<Longrightarrow> lastRequestTime s' = lastRequestTime s \<Longrightarrow>
   gate_inv W s \<Longrightarrow> gate_inv W s'"
  by (simp add: gate_inv_def)

lemma gate_inv_step: "gate_inv W s \<Longrightarrow> gate_inv W (worker_iter W s)"
proof (cases "queue s")
  case Nil
  assume "gate_inv W s"
  with Nil show ?thesis by (simp add: worker_iter_def)
next
  case (Cons item rest)
  assume inv: "gate_inv W s"
  show ?thesis
  proof (cases "url item \<in> visited s")
    case True
    with Cons inv show ?thesis by (simp add: worker_iter_skip gate_inv_def)
  next
    case False
    let ?g = "gate W (s\<lparr>queue := rest\<rparr>)"
    have "gate_inv W (s\<lparr>queue := rest\<rparr>)" using inv by (simp add: gate_inv_def)
    then have g: "gate_inv W ?g" by (rule gate_inv_gate)
    have "gate_log (worker_iter W s) = gate_log ?g"
      and "lastRequestTime (worker_iter W s) = lastRequestTime ?g"
      using Cons False
      by (simp_all add: worker_iter_run delay_frame handleCrawlError_frame requestFn_frame
          split: option.splits)
    then show ?thesis using g by (rule gate_inv_cong)
  qed
qed

subsection \<open>The robots.txt gate, case by case\<close>

lemma robots_unparsed: "parse_url W u = None \<Longrightarrow> isAllowedByRobots W u st = (True, st)"
  by (simp add: isAllowedByRobots_def)

lemma robots_cached:
  "parse_url W u = Some uo \<Longrightarrow> robotsCache st (robots_url uo) = Some b \<Longrightarrow>
   isAllowedByRobots W u st = (b, st)"
  by (simp add: isAllowedByRobots_def)

lemma robots_fetch_failed:
  "parse_url W u = Some uo \<Longrightarrow> robotsCache st (robots_url uo) = None \<Longrightarrow>
   fst (fetch W RobotsFetch None (robots_url uo) st) = Inl e \<Longrightarrow>
   isAllowedByRobots W u st = (True, snd (fetch W RobotsFetch None (robots_url uo) st))"
  by (simp add: isAllowedByRobots_def case_prod_beta)

lemma robots_fetch_not_ok:
  "parse_url W u = Some uo \<Longrightarrow> robotsCache st (robots_url uo) = None \<Longrightarrow>
   fst (fetch W RobotsFetch None (robots_url uo) st) = Inr r \<Longrightarrow> \<not> ok r \<Longrightarrow>
   isAllowedByRobots W u st =
     (True, (snd (fetch W RobotsFetch None (robots_url uo) st))
              \<lparr>robotsCache := (robotsCache st)(robots_url uo \<mapsto> True)\<rparr>)"
  by (simp add: isAllowedByRobots_def case_prod_beta fetch_frame Let_def)

lemma robots_fetch_ok:
  "parse_url W u = Some uo \<Longrightarrow> robotsCache st (robots_url uo) = None \<Longrightarrow>
   fst (fetch W RobotsFetch None (robots_url uo) st) = Inr r \<Longrightarrow> ok r \<Longrightarrow>
   isAllowedByRobots W u st =
     (parseRobotsTxt (userAgent (config W)) (body r) (pathname uo),
      (snd (fetch W RobotsFetch None (robots_url uo) st))
        \<lparr>robotsCache := (robotsCache st)(robots_url uo \<mapsto>
            parseRobotsTxt (userAgent (config W)) (body r) (pathname uo))\<rparr>)"
  by (simp add: isAllowedByRobots_def case_prod_beta fetch_frame Let_def)

subsection \<open>Growth of the visited set, the robots cache and the log\<close>

lemma log_filters_simps:
  "robots_fetches [] = []" "page_fetches [] = []" "link_fetches [] = []"
  "robots_fetches (xs @ ys) = robots_fetches xs @ robots_fetches ys"
  "page_fetches (xs @ ys) = page_fetches xs @ page_fetches ys"
  "link_fetches (xs @ ys) = link_fetches xs @ link_fetches ys"
  "robots_fetches [\<lparr>ev_time = t, ev_url = u, ev_kind = k, ev_sent = b\<rparr>] = (if k = RobotsFetch then [u] else [])"
  "page_fetches [\<lparr>ev_time = t, ev_url = u, ev_kind = k, ev_sent = b\<rparr>] = (if k = PageFetch then [u] else [])"
  "link_fetches [\<lparr>ev_time = t, ev_url = u, ev_kind = k, ev_sent = b\<rparr>] = (if k = LinkFetch then [u] else [])"
  by (simp_all add: robots_fetches_def page_fetches_def link_fetches_def is_kind_def)

lemma grows_refl: "grows s s"
  by (simp add: grows_def log_filters_simps)

lemma grows_same:
  "visited s' = visited s \<Longrightarrow> robotsCache s' = robotsCache s \<Longrightarrow> fetch_log s' = fetch_log s \<Longrightarrow>
   grows s s'"
  by (simp add: grows_def log_filters_simps)

lemma grows_trans:
  assumes "grows s t" and "grows t r"
  shows "grows s r"
proof -
  from assms(1) obtain e1 where 1: "visited s \<subseteq> visited t" "robotsCache s \<subseteq>\<^sub>m robotsCache t"
    "fetch_log t = fetch_log s @ e1" "set (robots_fetches e1) \<inter> dom (robotsCache s) = {}"
    "distinct (page_fetches e1)" "set (page_fetches e1) \<inter> visited s = {}"
    "set (page_fetches e1) \<subseteq> visited t"
    unfolding grows_def by blast
  from assms(2) obtain e2 where 2: "visited t \<subseteq> visited r" "robotsCache t \<subseteq>\<^sub>m robotsCache r"
    "fetch_log r = fetch_log t @ e2" "set (robots_fetches e2) \<inter> dom (robotsCache t) = {}"
    "distinct (page_fetches e2)" "set (page_fetches e2) \<inter> visited t = {}"
    "set (page_fetches e2) \<subseteq> visited r"
    unfolding grows_def by blast
  have d: "dom (robotsCache s) \<subseteq> dom (robotsCache t)"
    using 1(2) by (rule map_le_implies_dom_le)
  have a: "visited s \<subseteq> visited r" using 1(1) 2(1) by blast
  have b: "robotsCache s \<subseteq>\<^sub>m robotsCache r" using 1(2) 2(2) by (rule map_le_trans)
  have c: "fetch_log r = fetch_log s @ (e1 @ e2)" using 1(3) 2(3) by simp
  have e: "set (robots_fetches (e1 @ e2)) \<inter> dom (robotsCache s) = {}"
  proof -
    have "set (robots_fetches e2) \<inter> dom (robotsCache s) = {}" using 2(4) d by blast
    with 1(4) show ?thesis by (simp add: log_filters_simps Int_Un_distrib2)
  qed
  have f: "distinct (page_fetches (e1 @ e2))"
    using 1(5) 2(5) 1(7) 2(6) by (auto simp: log_filters_simps)
  have g: "set (page_fetches (e1 @ e2)) \<inter> visited s = {}"
    using 1(6) 2(6) 1(1) by (auto simp: log_filters_simps)
  have h: "set (page_fetches (e1 @ e2)) \<subseteq> visited r"
    using 1(7) 2(7) 2(1) by (auto simp: log_filters_simps)
  show ?thesis unfolding grows_def using a b c e f g h by blast
qed

lemma grows_cong:
  "grows s t \<Longrightarrow> visited t' = visited t \<Longrightarrow> robotsCache t' = robotsCache t \<Longrightarrow>
   fetch_log t' = fetch_log t \<Longrightarrow> grows s t'"
  by (simp add: grows_def)

lemma grows_delay: "grows s (delay W ms s)"
  by (rule grows_same) (simp_all add: delay_frame)

lemma grows_gate: "grows s (gate W s)"
  by (rule grows_same) (simp_all add: gate_frame)

lemma grows_handleCrawlError: "grows s (handleCrawlError u e s)"
  by (rule grows_same) (simp_all add: handleCrawlError_frame)

lemma grows_fetch_other:
  "k \<noteq> PageFetch \<Longrightarrow> k = RobotsFetch \<longrightarrow> robotsCache s u = None \<Longrightarrow>
   grows s (snd (fetch W k tmo u s))"
  unfolding grows_def
  by (auto simp: fetch_frame fetch_log_fetch log_filters_simps)

lemma grows_isAllowedByRobots: "grows s (snd (isAllowedByRobots W u s))"
proof (cases "parse_url W u")
  case None
  then show ?thesis by (simp add: robots_unparsed grows_refl)
next
  case (Some uo)
  show ?thesis
  proof (cases "robotsCache s (robots_url uo)")
    case (Some b)
    with \<open>parse_url W u = Some uo\<close> show ?thesis by (simp add: robots_cached grows_refl)
  next
    case None
    let ?f = "fetch W RobotsFetch None (robots_url uo) s"
    have gf: "grows s (snd ?f)" using None by (simp add: grows_fetch_other)
    show ?thesis
    proof (cases "fst ?f")
      case (Inl e)
      with \<open>parse_url W u = Some uo\<close> None gf show ?thesis by (simp add: robots_fetch_failed)
    next
      case (Inr r)
      have up: "grows (snd ?f) ((snd ?f)\<lparr>robotsCache := (robotsCache s)(robots_url uo \<mapsto> v)\<rparr>)" for v
        unfolding grows_def using None
        by (auto simp: fetch_frame log_filters_simps map_le_def)
      show ?thesis
      proof (cases "ok r")
        case True
        with \<open>parse_url W u = Some uo\<close> None Inr show ?thesis
          using grows_trans [OF gf up] by (simp add: robots_fetch_ok)
      next
        case False
        with \<open>parse_url W u = Some uo\<close> None Inr show ?thesis
          using grows_trans [OF gf up] by (simp add: robots_fetch_not_ok)
      qed
    qed
  qed
qed

lemma grows_extractLinks: "grows s (snd (extractLinks W u nd s))"
proof -
  have "grows s (snd (fetchWithTimeout W LinkFetch u s))"
    by (simp add: fetchWithTimeout_def grows_fetch_other)
  then show ?thesis
    by (rule grows_cong)
       (simp_all add: extractLinks_def case_prod_beta Let_def fetchWithTimeout_frame
         split: sum.splits option.splits)
qed

subsection \<open>Growth through \<open>crawlPage\<close> and the worker loop\<close>

lemma grows_robots_check: "grows s (snd (robots_check W u s))"
  by (simp add: robots_check_def grows_isAllowedByRobots grows_refl)

lemma robots_check_frame:
  "visited (snd (robots_check W u st)) = visited st"
  "queue (snd (robots_check W u st)) = queue st"
  "index (snd (robots_check W u st)) = index st"
  "errors (snd (robots_check W u st)) = errors st"
  "lastRequestTime (snd (robots_check W u st)) = lastRequestTime st"
  "gate_log (snd (robots_check W u st)) = gate_log st"
  by (simp_all add: robots_check_def isAllowedByRobots_frame)

lemma crawlPage_try_log:
  "fetch_log (snd (crawlPage_try W u d ref st)) = fetch_log st @ [page_event u st]"
  by (simp add: crawlPage_try_def case_prod_beta Let_def fetch_log_fetchWithTimeout page_event_def
      split: sum.splits)

lemma crawlPage_denied:
  "u \<notin> visited st \<Longrightarrow> \<not> fst (robots_check W u st) \<Longrightarrow>
   crawlPage W u d ref rc st =
     (Inr None, (snd (robots_check W u st))\<lparr>skipped := skipped (snd (robots_check W u st)) + 1\<rparr>)"
  by (simp add: crawlPage_unfold robots_check_def Let_def)

text \<open>\<open>crawlPage\<close> when the robots test lets the URL pass.\<close>

lemma crawlPage_allowed:
  assumes "u \<notin> visited st" and "fst (robots_check W u st)"
  defines "st2 \<equiv> (snd (robots_check W u st))
                    \<lparr>visited := insert u (visited st),
                     activeRequests := activeRequests (snd (robots_check W u st)) + 1\<rparr>"
  shows "crawlPage W u d ref rc st =
     (case fst (crawlPage_try W u d ref st2) of
        Inr pageData \<Rightarrow>
          (Inr (Some pageData),
           (snd (crawlPage_try W u d ref st2))\<lparr>activeRequests := activeRequests st2 - 1\<rparr>)
      | Inl e \<Rightarrow>
          if rc < maxRetries (config W) \<and> e \<noteq> AbortError then
            (Inr None, (delay W (1000 * (rc + 1)) (snd (crawlPage_try W u d ref st2)))
                         \<lparr>activeRequests := activeRequests st2 - 1\<rparr>)
          else (Inl e, (snd (crawlPage_try W u d ref st2))\<lparr>activeRequests := activeRequests st2 - 1\<rparr>))"
  using assms(1,2) unfolding st2_def
  by (simp add: crawlPage_unfold robots_check_def Let_def crawlPage_try_frame
      isAllowedByRobots_frame split: sum.splits)

lemma crawlPage_allowed_fields:
  assumes "u \<notin> visited st" and "fst (robots_check W u st)"
  shows "visited (snd (crawlPage W u d ref rc st)) = insert u (visited st)"
    and "robotsCache (snd (crawlPage W u d ref rc st)) = robotsCache (snd (robots_check W u st))"
    and "fetch_log (snd (crawlPage W u d ref rc st)) =
           fetch_log (snd (robots_check W u st)) @ [page_event u (snd (robots_check W u st))]"
  using assms
  by (simp_all add: crawlPage_allowed crawlPage_try_frame crawlPage_try_log delay_frame
      page_event_def split: sum.splits)

lemma grows_crawlPage: "grows s (snd (crawlPage W u d ref rc s))"
proof (cases "u \<in> visited s")
  case True
  then show ?thesis by (simp add: crawlPage_visited grows_refl)
next
  case False
  let ?c = "robots_check W u s"
  have g1: "grows s (snd ?c)" by (rule grows_robots_check)
  show ?thesis
  proof (cases "fst ?c")
    case False
    with \<open>u \<notin> visited s\<close> show ?thesis
      by (simp add: crawlPage_denied grows_cong [OF g1])
  next
    case True
    note f = crawlPage_allowed_fields [OF \<open>u \<notin> visited s\<close> True, of d ref rc]
    have "grows (snd ?c) (snd (crawlPage W u d ref rc s))"
      unfolding grows_def using \<open>u \<notin> visited s\<close>
      by (auto simp: f robots_check_frame log_filters_simps page_event_def)
    with g1 show ?thesis by (rule grows_trans)
  qed
qed

lemma grows_requestFn: "grows s (snd (requestFn W item s))"
proof -
  let ?c = "crawlPage W (url item) (depth item) (referrer item) 0 s"
  have g1: "grows s (snd ?c)" by (rule grows_crawlPage)
  show ?thesis
  proof (cases "fst ?c")
    case (Inl e)
    with g1 show ?thesis by (simp add: requestFn_def case_prod_beta)
  next
    case (Inr po)
    show ?thesis
    proof (cases po)
      case None
      with Inr g1 show ?thesis by (simp add: requestFn_def case_prod_beta)
    next
      case (Some pd)
      let ?s2 = "(snd ?c)\<lparr>index := index (snd ?c) @ [pd], processed := processed (snd ?c) + 1\<rparr>"
      have g2: "grows s ?s2" by (rule grows_cong [OF g1]) simp_all
      show ?thesis
      proof (cases "depth item < maxDepth (config W)")
        case True
        have "grows ?s2 (snd (extractLinks W (url item) (depth item + 1) ?s2))"
          by (rule grows_extractLinks)
        with g2 have "grows s (snd (extractLinks W (url item) (depth item + 1) ?s2))"
          by (rule grows_trans)
        then have "grows s ((snd (extractLinks W (url item) (depth item + 1) ?s2))
            \<lparr>queue := queue (snd (extractLinks W (url item) (depth item + 1) ?s2)) @
                        fst (extractLinks W (url item) (depth item + 1) ?s2)\<rparr>)"
          by (rule grows_cong) simp_all
        with Inr Some True show ?thesis by (simp add: requestFn_def case_prod_beta Let_def)
      next
        case False
        with Inr Some g2 show ?thesis by (simp add: requestFn_def case_prod_beta Let_def)
      qed
    qed
  qed
qed

lemma grows_worker_iter: "grows s (worker_iter W s)"
proof (cases "queue s")
  case Nil
  then show ?thesis by (simp add: worker_iter_def grows_refl)
next
  case (Cons item rest)
  show ?thesis
  proof (cases "url item \<in> visited s")
    case True
    with Cons show ?thesis by (simp add: worker_iter_skip grows_same)
  next
    case False
    let ?s0 = "s\<lparr>queue := rest\<rparr>"
    let ?r = "requestFn W item (gate W ?s0)"
    have "grows s ?s0" by (rule grows_same) simp_all
    moreover have "grows ?s0 (gate W ?s0)" by (rule grows_gate)
    moreover have "grows (gate W ?s0) (snd ?r)" by (rule grows_requestFn)
    ultimately have g: "grows s (snd ?r)" by (blast intro: grows_trans)
    have "grows s (case fst ?r of Some e \<Rightarrow> handleCrawlError (url item) e (snd ?r) | None \<Rightarrow> snd ?r)"
      using g grows_trans [OF g grows_handleCrawlError] by (simp split: option.splits)
    then have "grows s (delay W 100
        (case fst ?r of Some e \<Rightarrow> handleCrawlError (url item) e (snd ?r) | None \<Rightarrow> snd ?r))"
      using grows_delay by (blast intro: grows_trans)
    with Cons False show ?thesis by (simp add: worker_iter_run)
  qed
qed

lemma grows_crawlWorker: "grows s (crawlWorker W s)"
  by (rule crawlWorker_invariant [where P = "grows s"])
     (auto intro: grows_refl grows_trans grows_worker_iter)

lemma grows_crawl_steps: "grows s ((crawl_step W ^^ n) s)"
  by (rule crawl_steps_invariant [where P = "grows s"])
     (auto intro: grows_refl grows_trans grows_worker_iter)

lemma grows_run_crawl: "grows (start_state u t0) (run_crawl W u t0)"
  by (simp add: run_crawl_def processCrawlQueue_def grows_crawlWorker grows_refl)

subsection \<open>What each operation appends to the log\<close>

lemma isAllowedByRobots_log:
  "fetch_log (snd (isAllowedByRobots W u st)) = fetch_log st @ robots_events W u st"
  by (simp add: isAllowedByRobots_def robots_events_def Let_def case_prod_beta fetch_log_fetch
      split: option.splits sum.splits)

lemma robots_check_log:
  "fetch_log (snd (robots_check W u st)) = fetch_log st @ check_events W u st"
  by (simp add: robots_check_def check_events_def isAllowedByRobots_log)

lemma check_events_kinds:
  "page_fetches (check_events W u st) = []" "link_fetches (check_events W u st) = []"
  by (simp_all add: check_events_def robots_events_def log_filters_simps split: option.splits)

lemma crawlPage_log_denied:
  "u \<notin> visited st \<Longrightarrow> \<not> fst (robots_check W u st) \<Longrightarrow>
   fetch_log (snd (crawlPage W u d ref rc st)) = fetch_log st @ check_events W u st"
  by (simp add: crawlPage_denied robots_check_log)

lemma crawlPage_log_allowed:
  "u \<notin> visited st \<Longrightarrow> fst (robots_check W u st) \<Longrightarrow>
   fetch_log (snd (crawlPage W u d ref rc st)) =
     fetch_log st @ check_events W u st @ [page_event u (snd (robots_check W u st))]"
  by (simp add: crawlPage_allowed_fields robots_check_log)

lemma extractLinks_log:
  "fetch_log (snd (extractLinks W u nd st)) = fetch_log st @ [link_event u st]"
  by (simp add: extractLinks_def case_prod_beta Let_def fetch_log_fetchWithTimeout link_event_def
      split: sum.splits option.splits)

lemma new_events_append: "fetch_log s' = fetch_log s @ evs \<Longrightarrow> new_events s s' = evs"
  by (simp add: new_events_def)

lemma grows_new_events:
  assumes "grows s s'"
  shows "fetch_log s' = fetch_log s @ new_events s s'"
    and "set (robots_fetches (new_events s s')) \<inter> dom (robotsCache s) = {}"
    and "distinct (page_fetches (new_events s s'))"
proof -
  from assms obtain evs where e: "fetch_log s' = fetch_log s @ evs"
    "set (robots_fetches evs) \<inter> dom (robotsCache s) = {}" "distinct (page_fetches evs)"
    unfolding grows_def by blast
  then have "new_events s s' = evs" by (simp add: new_events_append)
  with e show "fetch_log s' = fetch_log s @ new_events s s'"
    and "set (robots_fetches (new_events s s')) \<inter> dom (robotsCache s) = {}"
    and "distinct (page_fetches (new_events s s'))" by simp_all
qed

lemma grows_cache_kept: "grows s s' \<Longrightarrow> robotsCache s k = Some b \<Longrightarrow> robotsCache s' k = Some b"
  unfolding grows_def map_le_def by (metis domI)

subsection \<open>A recorded page\<close>

lemma fetch_answered:
  "fst (fetch W k tmo u st) = Inr r \<Longrightarrow> \<not> aborted st \<and> \<not> aborted (snd (fetch W k tmo u st))"
  by (simp add: fetch_def Let_def split: if_splits net_result.splits option.splits)

lemma crawlPage_try_answered:
  "fst (crawlPage_try W u d ref st) = Inr pd \<Longrightarrow>
   \<not> aborted st \<and> \<not> aborted (snd (crawlPage_try W u d ref st))"
  using fetch_answered [of W PageFetch "Some (timeout (config W))" u st]
  by (auto simp: crawlPage_try_def fetchWithTimeout_def case_prod_beta Let_def
      split: sum.splits if_splits)

lemma crawlPage_recorded:
  assumes "fst (crawlPage W u d ref rc st) = Inr (Some pd)"
  shows "u \<notin> visited st" and "fst (robots_check W u st)"
    and "\<not> aborted (snd (robots_check W u st))"
    and "\<not> aborted (snd (crawlPage W u d ref rc st))"
    and "fetch_log (snd (crawlPage W u d ref rc st)) =
           fetch_log st @ check_events W u st @ [page_event u (snd (robots_check W u st))]"
proof -
  show nv: "u \<notin> visited st"
    using assms by (cases "u \<in> visited st") (simp_all add: crawlPage_visited)
  show al: "fst (robots_check W u st)"
    using assms nv by (cases "fst (robots_check W u st)") (simp_all add: crawlPage_denied)
  let ?st2 = "(snd (robots_check W u st))
                \<lparr>visited := insert u (visited st),
                 activeRequests := activeRequests (snd (robots_check W u st)) + 1\<rparr>"
  have t: "fst (crawlPage_try W u d ref ?st2) = Inr pd"
    using assms by (simp add: crawlPage_allowed [OF nv al] split: sum.splits if_splits)
  from crawlPage_try_answered [OF t]
  show "\<not> aborted (snd (robots_check W u st))" by simp
  from crawlPage_try_answered [OF t] t
  show "\<not> aborted (snd (crawlPage W u d ref rc st))"
    by (simp add: crawlPage_allowed [OF nv al])
  show "fetch_log (snd (crawlPage W u d ref rc st)) =
           fetch_log st @ check_events W u st @ [page_event u (snd (robots_check W u st))]"
    using nv al by (rule crawlPage_log_allowed)
qed

lemma non_robots_simps:
  "non_robots (xs @ ys) = non_robots xs @ non_robots ys"
  "non_robots (check_events W u st) = []"
  "non_robots [page_event u st] = [page_event u st]"
  "non_robots [link_event u st] = [link_event u st]"
  "non_robots [page_event u st, link_event u' st'] = [page_event u st, link_event u' st']"
  by (simp_all add: non_robots_def check_events_def robots_events_def page_event_def
      link_event_def split: option.splits)

subsection \<open>Link discovery and the host of every queued URL\<close>

lemma somes_map_Some: "somes (map Some xs) = xs"
  by (induction xs) auto

lemma keep_link_filter:
  "filter (keep_link W st b) xs = map Some (filter (link_ok W st b) (somes xs))"
  by (induction xs rule: somes.induct) (auto simp: keep_link_def link_ok_def)

lemma somes_take_keep:
  "somes (take n (filter (keep_link W st b) xs)) = take n (filter (link_ok W st b) (somes xs))"
  by (simp add: keep_link_filter take_map somes_map_Some)

lemma link_ok_visited: "visited s' = visited s \<Longrightarrow> link_ok W s' b = link_ok W s b"
  by (rule ext) (simp add: link_ok_def)

lemma extractLinks_eq:
  "fst (extractLinks W u nd s) =
     (case fst (fetchWithTimeout W LinkFetch u s) of
        Inl e \<Rightarrow> []
      | Inr resp \<Rightarrow>
          (case parse_url W u of
             None \<Rightarrow> []
           | Some b \<Rightarrow>
               take 20 (filter (link_ok W s b)
                          (candidate_links W u nd (parse_html W (body resp))))))"
  by (simp add: extractLinks_def case_prod_beta Let_def somes_take_keep candidate_links_def
      link_ok_visited [OF fetchWithTimeout_frame(1)]
      split: sum.splits option.splits)

lemma set_somes: "set (somes xs) = {x. Some x \<in> set xs}"
  by (induction xs rule: somes.induct) auto

lemma candidate_links_props:
  assumes "l \<in> set (candidate_links W u nd doc)"
  shows "depth l = nd" and "referrer l = Some u"
    and "\<exists>a \<in> set (anchors doc). fst a \<noteq> [] \<and> resolve_url W (fst a) u = Some (url l)"
proof -
  from assms obtain a where a: "a \<in> set (anchors doc)" "make_link W u nd a = Some l"
    by (auto simp: candidate_links_def set_somes)
  from a(2) show "depth l = nd" and "referrer l = Some u"
    by (auto simp: make_link_def split: if_splits option.splits)
  from a show "\<exists>a \<in> set (anchors doc). fst a \<noteq> [] \<and> resolve_url W (fst a) u = Some (url l)"
    by (auto simp: make_link_def split: if_splits option.splits)
qed

lemma extractLinks_props:
  assumes "l \<in> set (fst (extractLinks W u nd s))"
  shows "depth l = nd" and "referrer l = Some u"
    and "\<exists>h. h \<noteq> [] \<and> resolve_url W h u = Some (url l)"
    and "isValidUrl W (url l)" and "url l \<notin> visited s"
    and "\<exists>b. parse_url W u = Some b \<and> isSameDomain W (url l) (href b)"
proof -
  obtain resp where r: "fst (fetchWithTimeout W LinkFetch u s) = Inr resp"
    using assms by (cases "fst (fetchWithTimeout W LinkFetch u s)") (simp_all add: extractLinks_eq)
  obtain b where b: "parse_url W u = Some b"
    using assms r by (cases "parse_url W u") (simp_all add: extractLinks_eq)
  note rb = r b
  have l: "l \<in> set (take 20 (filter (link_ok W s b)
                          (candidate_links W u nd (parse_html W (body resp)))))"
    using assms r b by (simp add: extractLinks_eq)
  from l have c: "l \<in> set (candidate_links W u nd (parse_html W (body resp)))"
    and k: "link_ok W s b l"
    by (auto dest: in_set_takeD)
  from candidate_links_props [OF c]
  show "depth l = nd" and "referrer l = Some u"
    and "\<exists>h. h \<noteq> [] \<and> resolve_url W h u = Some (url l)"
    by blast+
  from k show "isValidUrl W (url l)" and "url l \<notin> visited s"
    by (simp_all add: link_ok_def)
  from k rb(2) show "\<exists>b. parse_url W u = Some b \<and> isSameDomain W (url l) (href b)"
    by (simp add: link_ok_def)
qed




lemma same_domain_via_href:
  assumes "href_stable W" and "parse_url W u = Some b" and "isSameDomain W x (href b)"
  shows "isSameDomain W x u"
proof -
  from assms(3) obtain a c where a: "parse_url W x = Some a" "parse_url W (href b) = Some c"
    "hostname a = hostname c"
    by (auto simp: isSameDomain_def split: option.splits)
  from assms(1,2) a(2) have "hostname c = hostname b"
    unfolding href_stable_def by blast
  with a assms(2) show ?thesis by (simp add: isSameDomain_def)
qed

lemma isSameDomain_trans:
  "isSameDomain W a b \<Longrightarrow> isSameDomain W b c \<Longrightarrow> isSameDomain W a c"
  by (auto simp: isSameDomain_def split: option.splits)

lemma crawlPage_try_page_url:
  assumes "fst (crawlPage_try W u d ref s) = Inr pd"
  shows "page_url pd = u"
proof (cases "fst (fetchWithTimeout W PageFetch u s)")
  case (Inl e)
  with assms show ?thesis by (simp add: crawlPage_try_def case_prod_beta)
next
  case (Inr resp)
  with assms have "pd = parsePageData W u (body resp) d ref (snd (fetchWithTimeout W PageFetch u s))"
    by (simp add: crawlPage_try_def case_prod_beta Let_def split: if_splits)
  then show ?thesis by (simp add: parsePageData_def Let_def)
qed

lemma crawlPage_recorded_try:
  assumes "fst (crawlPage W u d ref rc st) = Inr (Some pd)"
  shows "fst (crawlPage_try W u d ref (try_state W u st)) = Inr pd"
proof -
  note r = crawlPage_recorded(1,2) [OF assms]
  show ?thesis
  proof (cases "fst (crawlPage_try W u d ref (try_state W u st))")
    case (Inl e)
    with assms show ?thesis
      using crawlPage_allowed [OF r, of d ref rc]
      by (simp add: try_state_def robots_check_frame split: if_splits)
  next
    case (Inr p)
    with assms show ?thesis
      using crawlPage_allowed [OF r, of d ref rc]
      by (simp add: try_state_def robots_check_frame)
  qed
qed

lemma crawlPage_page_url:
  "fst (crawlPage W u d ref rc st) = Inr (Some pd) \<Longrightarrow> page_url pd = u"
  by (rule crawlPage_try_page_url [OF crawlPage_recorded_try])



text \<open>What one iteration of the worker does to the queue and the list of pages.\<close>

lemma worker_iter_effect:
  assumes "queue st = item # rest"
  shows "(queue (worker_iter W st) = rest \<and> index (worker_iter W st) = index st) \<or>
         (\<exists>pd s2. index (worker_iter W st) = index st @ [pd] \<and> page_url pd = url item \<and>
            visited s2 = visited (worker_iter W st) \<and>
            (queue (worker_iter W st) = rest \<or>
             queue (worker_iter W st) =
               rest @ fst (extractLinks W (url item) (depth item + 1) s2)))"
proof (cases "url item \<in> visited st")
  case True
  with assms show ?thesis by (simp add: worker_iter_skip)
next
  case False
  let ?g = "gate W (st\<lparr>queue := rest\<rparr>)"
  let ?c = "crawlPage W (url item) (depth item) (referrer item) 0 ?g"
  let ?r = "requestFn W item ?g"
  have wi: "worker_iter W st =
      delay W 100 (case fst ?r of Some e \<Rightarrow> handleCrawlError (url item) e (snd ?r) | None \<Rightarrow> snd ?r)"
    using assms False by (rule worker_iter_run)
  have fr: "queue (worker_iter W st) = queue (snd ?r)" "index (worker_iter W st) = index (snd ?r)"
    "visited (worker_iter W st) = visited (snd ?r)"
    by (simp_all add: wi delay_frame handleCrawlError_frame split: option.splits)
  have gq: "queue ?g = rest" "index ?g = index st" by (simp_all add: gate_frame)
  show ?thesis
  proof (cases "fst ?c")
    case (Inl e)
    then have "queue (snd ?r) = rest" "index (snd ?r) = index st"
      by (simp_all add: requestFn_def case_prod_beta crawlPage_frame gq)
    with fr show ?thesis by simp
  next
    case (Inr po)
    show ?thesis
    proof (cases po)
      case None
      with Inr have "queue (snd ?r) = rest" "index (snd ?r) = index st"
        by (simp_all add: requestFn_def case_prod_beta crawlPage_frame gq)
      with fr show ?thesis by simp
    next
      case (Some pd)
      let ?s2 = "(snd ?c)\<lparr>index := index (snd ?c) @ [pd], processed := processed (snd ?c) + 1\<rparr>"
      let ?x = "extractLinks W (url item) (depth item + 1) ?s2"
      have pu: "page_url pd = url item"
      proof (rule crawlPage_page_url)
        from Inr Some show "fst ?c = Inr (Some pd)" by simp
      qed
      show ?thesis
      proof (cases "depth item < maxDepth (config W)")
        case True
        with Inr Some have r: "?r = (None, (snd ?x)\<lparr>queue := queue (snd ?x) @ fst ?x\<rparr>)"
          by (simp add: requestFn_def case_prod_beta Let_def)
        have "index (worker_iter W st) = index st @ [pd]"
          "queue (worker_iter W st) = rest @ fst ?x"
          "visited ?s2 = visited (worker_iter W st)"
          by (simp_all add: fr r extractLinks_frame crawlPage_frame gq)
        with pu show ?thesis by blast
      next
        case False
        with Inr Some have r: "?r = (None, ?s2)"
          by (simp add: requestFn_def case_prod_beta Let_def)
        have "index (worker_iter W st) = index st @ [pd]"
          "queue (worker_iter W st) = rest"
          "visited ?s2 = visited (worker_iter W st)"
          by (simp_all add: fr r crawlPage_frame gq)
        with pu show ?thesis by blast
      qed
    qed
  qed
qed

lemma host_inv_step:
  assumes hs: "href_stable W" and inv: "host_inv W seed st"
  shows "host_inv W seed (worker_iter W st)"
proof (cases "queue st")
  case Nil
  with inv show ?thesis by (simp add: worker_iter_def)
next
  case (Cons item rest)
  from inv Cons have it: "isSameDomain W (url item) seed"
    and rs: "\<forall>i \<in> set rest. isSameDomain W (url i) seed"
    and ix: "\<forall>p \<in> set (index st). isSameDomain W (page_url p) seed"
    by (simp_all add: host_inv_def)
  from worker_iter_effect [OF Cons, of W] show ?thesis
  proof (elim disjE conjE exE)
    assume "queue (worker_iter W st) = rest" "index (worker_iter W st) = index st"
    with rs ix show ?thesis by (simp add: host_inv_def)
  next
    fix pd s2
    assume a: "index (worker_iter W st) = index st @ [pd]" "page_url pd = url item"
      and q: "queue (worker_iter W st) = rest"
    with rs ix it show ?thesis by (simp add: host_inv_def)
  next
    fix pd s2
    assume a: "index (worker_iter W st) = index st @ [pd]" "page_url pd = url item"
      and q: "queue (worker_iter W st) =
               rest @ fst (extractLinks W (url item) (depth item + 1) s2)"
    have "isSameDomain W (url l) seed"
      if "l \<in> set (fst (extractLinks W (url item) (depth item + 1) s2))" for l
    proof -
      from extractLinks_props(6) [OF that] obtain b where
        b: "parse_url W (url item) = Some b" "isSameDomain W (url l) (href b)" by blast
      from hs b have "isSameDomain W (url l) (url item)" by (rule same_domain_via_href)
      then show ?thesis using it by (rule isSameDomain_trans)
    qed
    with a q rs ix it show ?thesis by (auto simp: host_inv_def)
  qed
qed

lemma host_inv_start: "isValidUrl W seed \<Longrightarrow> host_inv W seed (start_state seed t0)"
  by (auto simp: host_inv_def start_state_def fresh_def seed_item_def isValidUrl_def
      isSameDomain_def split: option.splits)

text \<open>The links that one iteration appends to the queue.\<close>

lemma worker_iter_links:
  assumes hs: "href_stable W" and q: "queue st = item # rest"
  shows "\<exists>links. queue (worker_iter W st) = rest @ links \<and> length links \<le> 20 \<and>
           (\<forall>l \<in> set links.
              depth l = depth item + 1 \<and> referrer l = Some (url item) \<and>
              (\<exists>h. h \<noteq> [] \<and> resolve_url W h (url item) = Some (url l)) \<and>
              isValidUrl W (url l) \<and> isSameDomain W (url l) (url item) \<and>
              url l \<notin> visited (worker_iter W st))"
proof -
  have none: ?thesis if "queue (worker_iter W st) = rest"
    using that by (intro exI [of _ "[]"]) simp
  from worker_iter_effect [OF q, of W] show ?thesis
  proof (elim disjE conjE exE)
    assume "queue (worker_iter W st) = rest"
    then show ?thesis by (rule none)
  next
    fix pd s2
    assume "queue (worker_iter W st) = rest"
    then show ?thesis by (rule none)
  next
    fix pd s2
    let ?x = "fst (extractLinks W (url item) (depth item + 1) s2)"
    assume v: "visited s2 = visited (worker_iter W st)"
      and qq: "queue (worker_iter W st) = rest @ ?x"
    have p: "depth l = depth item + 1 \<and> referrer l = Some (url item) \<and>
              (\<exists>h. h \<noteq> [] \<and> resolve_url W h (url item) = Some (url l)) \<and>
              isValidUrl W (url l) \<and> isSameDomain W (url l) (url item) \<and>
              url l \<notin> visited (worker_iter W st)" if l: "l \<in> set ?x" for l
    proof -
      note e = extractLinks_props [OF l]
      from e(6) obtain b where
        b: "parse_url W (url item) = Some b" "isSameDomain W (url l) (href b)" by blast
      from hs b have "isSameDomain W (url l) (url item)" by (rule same_domain_via_href)
      with e(1-5) v show ?thesis by simp
    qed
    have "length ?x \<le> 20" by (rule extractLinks_length)
    with qq p show ?thesis by blast
  qed
qed

subsection \<open>The robots cache over a run\<close>

lemma fetch_robots_reply:
  "(fst (fetch W RobotsFetch None k st) = Inr r) =
   (robots_reply W (length (fetch_log st)) (robots_event k st) = Some r)"
  by (simp add: fetch_def robots_reply_def robots_event_def Let_def
      split: option.splits net_result.splits)

lemma robots_settled_cong:
  "fetch_log s' = fetch_log s \<Longrightarrow> robotsCache s' = robotsCache s \<Longrightarrow>
   robots_settled W s \<Longrightarrow> robots_settled W s'"
  by (simp add: robots_settled_def)

text \<open>One more entry in the log.\<close>

lemma robots_settled_snoc:
  assumes inv: "robots_settled W s"
    and lg: "fetch_log s' = fetch_log s @ [e]"
    and le: "robotsCache s \<subseteq>\<^sub>m robotsCache s'"
    and fresh_key: "ev_kind e = RobotsFetch \<Longrightarrow> robotsCache s (ev_url e) = None"
    and cached: "\<And>r. ev_kind e = RobotsFetch \<Longrightarrow>
        robots_reply W (length (fetch_log s)) e = Some r \<Longrightarrow>
        robotsCache s' (ev_url e) \<noteq> None \<and> (\<not> ok r \<longrightarrow> robotsCache s' (ev_url e) = Some True)"
  shows "robots_settled W s'"
  unfolding robots_settled_def
proof (intro allI impI)
  fix i r
  let ?L = "fetch_log s" and ?L' = "fetch_log s'"
  assume i: "i < length ?L'" and ki: "ev_kind (?L' ! i) = RobotsFetch"
    and ri: "robots_reply W i (?L' ! i) = Some r"
  have keep: "robotsCache s' k = Some v" if "robotsCache s k = Some v" for k v
    using le that unfolding map_le_def by (metis domI)
  show "robotsCache s' (ev_url (?L' ! i)) \<noteq> None \<and>
        (\<not> ok r \<longrightarrow> robotsCache s' (ev_url (?L' ! i)) = Some True) \<and>
        (\<forall>j. i < j \<longrightarrow> j < length ?L' \<longrightarrow> ev_kind (?L' ! j) = RobotsFetch \<longrightarrow>
           ev_url (?L' ! j) \<noteq> ev_url (?L' ! i))"
  proof (cases "i < length ?L")
    case True
    then have nth: "?L' ! i = ?L ! i" by (simp add: lg nth_append)
    from inv True ki ri nth
    have a: "robotsCache s (ev_url (?L ! i)) \<noteq> None"
      and b: "\<not> ok r \<longrightarrow> robotsCache s (ev_url (?L ! i)) = Some True"
      and c: "\<forall>j. i < j \<longrightarrow> j < length ?L \<longrightarrow> ev_kind (?L ! j) = RobotsFetch \<longrightarrow>
                ev_url (?L ! j) \<noteq> ev_url (?L ! i)"
      unfolding robots_settled_def by auto
    from a obtain v where v: "robotsCache s (ev_url (?L ! i)) = Some v" by blast
    have a': "robotsCache s' (ev_url (?L' ! i)) \<noteq> None"
      using keep [OF v] nth by simp
    have b': "\<not> ok r \<longrightarrow> robotsCache s' (ev_url (?L' ! i)) = Some True"
      using b keep nth by simp
    have c': "ev_url (?L' ! j) \<noteq> ev_url (?L' ! i)"
      if j: "i < j" "j < length ?L'" "ev_kind (?L' ! j) = RobotsFetch" for j
    proof (cases "j < length ?L")
      case True
      then have "?L' ! j = ?L ! j" by (simp add: lg nth_append)
      with c j True nth show ?thesis by simp
    next
      case False
      with j(2) have "j = length ?L" by (simp add: lg)
      then have "?L' ! j = e" by (simp add: lg)
      with j(3) fresh_key have "robotsCache s (ev_url (?L' ! j)) = None" by simp
      with v nth show ?thesis by auto
    qed
    from a' b' c' show ?thesis by blast
  next
    case False
    with i have il: "i = length ?L" by (simp add: lg)
    then have nth: "?L' ! i = e" by (simp add: lg)
    from cached [of r] ki ri nth il
    have "robotsCache s' (ev_url e) \<noteq> None \<and> (\<not> ok r \<longrightarrow> robotsCache s' (ev_url e) = Some True)"
      by simp
    moreover have "\<not> (i < j \<and> j < length ?L')" for j using il by (simp add: lg)
    ultimately show ?thesis using nth by auto
  qed
qed

lemma robots_settled_other:
  assumes "robots_settled W s" and "fetch_log s' = fetch_log s @ [e]"
    and "robotsCache s' = robotsCache s" and "ev_kind e \<noteq> RobotsFetch"
  shows "robots_settled W s'"
  using assms(1,2)
proof (rule robots_settled_snoc)
  show "robotsCache s \<subseteq>\<^sub>m robotsCache s'" by (simp add: assms(3))
qed (simp_all add: assms(4))

lemma robots_settled_isAllowedByRobots:
  assumes inv: "robots_settled W s"
  shows "robots_settled W (snd (isAllowedByRobots W u s))"
proof (cases "parse_url W u")
  case None
  with inv show ?thesis by (simp add: robots_unparsed)
next
  case (Some uo)
  let ?k = "robots_url uo"
  show ?thesis
  proof (cases "robotsCache s ?k")
    case (Some b)
    with \<open>parse_url W u = Some uo\<close> inv show ?thesis by (simp add: robots_cached)
  next
    case None
    let ?f = "fetch W RobotsFetch None ?k s"
    have lg: "fetch_log (snd ?f) = fetch_log s @ [robots_event ?k s]"
      by (simp add: fetch_log_fetch robots_event_def)
    show ?thesis
    proof (cases "fst ?f")
      case (Inl e)
      then have nr: "robots_reply W (length (fetch_log s)) (robots_event ?k s) \<noteq> Some r" for r
        using fetch_robots_reply [of W ?k s r] by simp
      have "robots_settled W (snd ?f)"
        using inv lg
      proof (rule robots_settled_snoc)
        show "robotsCache s \<subseteq>\<^sub>m robotsCache (snd ?f)" by (simp add: fetch_frame)
      qed (simp_all add: robots_event_def [symmetric] None nr, simp add: robots_event_def None)
      with \<open>parse_url W u = Some uo\<close> None Inl show ?thesis by (simp add: robots_fetch_failed)
    next
      case (Inr r)
      have up: "robots_settled W ((snd ?f)\<lparr>robotsCache := (robotsCache s)(?k \<mapsto> v)\<rparr>)"
        if v: "\<not> ok r \<Longrightarrow> v = True" for v
      proof (rule robots_settled_snoc [OF inv])
        show "fetch_log ((snd ?f)\<lparr>robotsCache := (robotsCache s)(?k \<mapsto> v)\<rparr>) =
              fetch_log s @ [robots_event ?k s]"
          by (simp add: lg)
        show "robotsCache s \<subseteq>\<^sub>m robotsCache ((snd ?f)\<lparr>robotsCache := (robotsCache s)(?k \<mapsto> v)\<rparr>)"
          using None by (auto simp: map_le_def)
        show "robotsCache s (ev_url (robots_event ?k s)) = None"
          using None by (simp add: robots_event_def)
        fix r'
        assume "robots_reply W (length (fetch_log s)) (robots_event ?k s) = Some r'"
        then have "fst ?f = Inr r'" by (simp add: fetch_robots_reply)
        with Inr have "r' = r" by simp
        with v show "robotsCache ((snd ?f)\<lparr>robotsCache := (robotsCache s)(?k \<mapsto> v)\<rparr>)
                       (ev_url (robots_event ?k s)) \<noteq> None \<and>
              (\<not> ok r' \<longrightarrow> robotsCache ((snd ?f)\<lparr>robotsCache := (robotsCache s)(?k \<mapsto> v)\<rparr>)
                       (ev_url (robots_event ?k s)) = Some True)"
          by (simp add: robots_event_def)
      qed
      show ?thesis
      proof (cases "ok r")
        case True
        with \<open>parse_url W u = Some uo\<close> None Inr up show ?thesis
          by (simp add: robots_fetch_ok)
      next
        case False
        with \<open>parse_url W u = Some uo\<close> None Inr up [of True] show ?thesis
          by (simp add: robots_fetch_not_ok)
      qed
    qed
  qed
qed

lemma robots_settled_crawlPage:
  assumes inv: "robots_settled W s"
  shows "robots_settled W (snd (crawlPage W u d ref rc s))"
proof (cases "u \<in> visited s")
  case True
  with inv show ?thesis by (simp add: crawlPage_visited)
next
  case False
  let ?c = "robots_check W u s"
  have c: "robots_settled W (snd ?c)"
    using inv by (simp add: robots_check_def robots_settled_isAllowedByRobots)
  show ?thesis
  proof (cases "fst ?c")
    case False
    with \<open>u \<notin> visited s\<close> show ?thesis
      by (simp add: crawlPage_denied robots_settled_cong [OF _ _ c])
  next
    case True
    note f = crawlPage_allowed_fields [OF \<open>u \<notin> visited s\<close> True, of d ref rc]
    from c f(3) f(2) show ?thesis
      by (rule robots_settled_other) (simp add: page_event_def)
  qed
qed

lemma robots_settled_extractLinks:
  assumes "robots_settled W s"
  shows "robots_settled W (snd (extractLinks W u nd s))"
  using assms extractLinks_log
  by (rule robots_settled_other) (simp_all add: extractLinks_frame link_event_def)

lemma robots_settled_requestFn:
  assumes inv: "robots_settled W s"
  shows "robots_settled W (snd (requestFn W item s))"
proof -
  let ?c = "crawlPage W (url item) (depth item) (referrer item) 0 s"
  have c: "robots_settled W (snd ?c)" using inv by (rule robots_settled_crawlPage)
  show ?thesis
  proof (cases "fst ?c")
    case (Inl e)
    with c show ?thesis by (simp add: requestFn_def case_prod_beta)
  next
    case (Inr po)
    show ?thesis
    proof (cases po)
      case None
      with Inr c show ?thesis by (simp add: requestFn_def case_prod_beta)
    next
      case (Some pd)
      let ?s2 = "(snd ?c)\<lparr>index := index (snd ?c) @ [pd], processed := processed (snd ?c) + 1\<rparr>"
      have s2: "robots_settled W ?s2" by (rule robots_settled_cong [OF _ _ c]) simp_all
      show ?thesis
      proof (cases "depth item < maxDepth (config W)")
        case True
        let ?x = "extractLinks W (url item) (depth item + 1) ?s2"
        have "robots_settled W (snd ?x)" using s2 by (rule robots_settled_extractLinks)
        then have "robots_settled W ((snd ?x)\<lparr>queue := queue (snd ?x) @ fst ?x\<rparr>)"
          by (rule robots_settled_cong [rotated 2]) simp_all
        with Inr Some True show ?thesis by (simp add: requestFn_def case_prod_beta Let_def)
      next
        case False
        with Inr Some s2 show ?thesis by (simp add: requestFn_def case_prod_beta Let_def)
      qed
    qed
  qed
qed

lemma robots_settled_worker_iter:
  assumes inv: "robots_settled W s"
  shows "robots_settled W (worker_iter W s)"
proof (cases "queue s")
  case Nil
  with inv show ?thesis by (simp add: worker_iter_def)
next
  case (Cons item rest)
  show ?thesis
  proof (cases "url item \<in> visited s")
    case True
    with Cons show ?thesis
      by (simp add: worker_iter_skip robots_settled_cong [OF _ _ inv])
  next
    case False
    let ?g = "gate W (s\<lparr>queue := rest\<rparr>)"
    let ?r = "requestFn W item ?g"
    have "robots_settled W ?g"
      by (rule robots_settled_cong [OF _ _ inv]) (simp_all add: gate_frame)
    then have r: "robots_settled W (snd ?r)" by (rule robots_settled_requestFn)
    have "robots_settled W (delay W 100
        (case fst ?r of Some e \<Rightarrow> handleCrawlError (url item) e (snd ?r) | None \<Rightarrow> snd ?r))"
      by (rule robots_settled_cong [OF _ _ r])
         (simp_all add: delay_frame handleCrawlError_frame split: option.splits)
    with Cons False show ?thesis by (simp add: worker_iter_run)
  qed
qed

lemma robots_settled_run: "robots_settled W (run_crawl W startUrl t0)"
proof -
  have init: "robots_settled W (start_state startUrl t0)"
    by (simp add: robots_settled_def start_state_def fresh_def)
  show ?thesis
    unfolding run_crawl_def
    by (rule processCrawlQueue_invariant [where P = "robots_settled W"])
       (simp_all add: init robots_settled_worker_iter)
qed

lemma robots_settled_steps: "robots_settled W ((crawl_step W ^^ n) (start_state startUrl t0))"
proof -
  have init: "robots_settled W (start_state startUrl t0)"
    by (simp add: robots_settled_def start_state_def fresh_def)
  show ?thesis
    by (rule crawl_steps_invariant [where P = "robots_settled W"])
       (simp_all add: init robots_settled_worker_iter)
qed

subsection \<open>Concrete runs\<close>

lemma startCrawl_valid: "isValidUrl W u \<Longrightarrow> startCrawl W u t0 = Inr (run_crawl W u t0)"
  by (simp add: startCrawl_def)

lemma world_plain_valid: "isValidUrl world_plain seed_url"
  by code_simp

lemmas world_plain_started = startCrawl_valid [OF world_plain_valid, of 0]

lemma world_plain_fetch_times:
  "map ev_time (fetch_log (run_crawl world_plain seed_url 0)) = [1000, 1050, 2000, 3000]"
  by code_simp

lemma world_plain_fetch_urls:
  "map ev_url (fetch_log (run_crawl world_plain seed_url 0)) =
     [''https://example.com/'', ''https://example.com/'', ''https://example.com/a'',
      ''https://example.com/b'']"
  by code_simp

lemma world_plain_gate_log: "gate_log (run_crawl world_plain seed_url 0) = [1000, 2000, 3000]"
  by code_simp

lemma world_plain_pages:
  "map page_url (index (run_crawl world_plain seed_url 0)) =
     [''https://example.com/'', ''https://example.com/a'', ''https://example.com/b'']"
  by code_simp

lemma world_stop_valid: "isValidUrl world_stop seed_url"
  by code_simp

lemma world_down_valid: "isValidUrl world_down seed_url"
  by code_simp

lemma world_slow_valid: "isValidUrl world_slow seed_url"
  by code_simp

lemma world_robots_down_valid: "isValidUrl world_robots_down seed_url"
  by code_simp

lemma world_robots_404_valid: "isValidUrl world_robots_404 seed_url"
  by code_simp

lemma world_robots_valid: "isValidUrl world_robots seed_url"
  by code_simp

lemma world_two_schemes_valid: "isValidUrl world_two_schemes seed_url"
  by code_simp

subsection \<open>C1: responses the crawler cannot use\<close>

lemma world_404_valid: "isValidUrl world_404 seed_url"
  by code_simp

text \<open>
  Against C1 as stated: every request is answered with status 404 and \<open>maxRetries\<close> is
  2. The start URL is fetched once; \<open>crawlPage\<close> takes its retry branch (the clock
  shows the backoff of 1000 ms), and the crawl completes with no error recorded.
\<close>

theorem http_error_not_recorded_counterexample:
  "startCrawl world_404 seed_url 0 = Inr (run_crawl world_404 seed_url 0) \<and>
   maxRetries (config world_404) = 2 \<and>
   snd (net world_404 0 seed_url) = Responds not_found \<and>
   status not_found = 404 \<and>
   map ev_time (fetch_log (run_crawl world_404 seed_url 0)) = [1000] \<and>
   page_fetches (fetch_log (run_crawl world_404 seed_url 0)) = [seed_url] \<and>
   now (run_crawl world_404 seed_url 0) = 2150 \<and>
   errors (run_crawl world_404 seed_url 0) = []"
proof -
  have "maxRetries (config world_404) = 2" by (simp add: world_404_def default_config_def)
  moreover have "snd (net world_404 0 seed_url) = Responds not_found"
    by (simp add: world_404_def net_404_def)
  moreover have "status not_found = 404" by (simp add: not_found_def)
  moreover have "map ev_time (fetch_log (run_crawl world_404 seed_url 0)) = [1000]" by code_simp
  moreover have "page_fetches (fetch_log (run_crawl world_404 seed_url 0)) = [seed_url]"
    by code_simp
  moreover have "now (run_crawl world_404 seed_url 0) = 2150" by code_simp
  moreover have "errors (run_crawl world_404 seed_url 0) = []" by code_simp
  ultimately show ?thesis using startCrawl_valid [OF world_404_valid, of 0] by simp
qed

lemma crawlPage_thrown:
  assumes "u \<notin> visited st" and "fst (robots_check W u st)"
    and "fst (crawlPage_try W u d ref (try_state W u st)) = Inl e"
    and "\<not> (rc < maxRetries (config W) \<and> e \<noteq> AbortError)"
  shows "crawlPage W u d ref rc st =
    (Inl e, (snd (crawlPage_try W u d ref (try_state W u st)))
              \<lparr>activeRequests := activeRequests (try_state W u st) - 1\<rparr>)"
  using assms(3,4) crawlPage_allowed [OF assms(1,2), of d ref rc]
  by (auto simp: try_state_def robots_check_frame)

lemma crawlPage_retry:
  assumes "u \<notin> visited st" and "fst (robots_check W u st)"
    and "fst (crawlPage_try W u d ref (try_state W u st)) = Inl e"
    and "rc < maxRetries (config W)" and "e \<noteq> AbortError"
  shows "crawlPage W u d ref rc st =
    (let again = crawlPage W u d ref (rc + 1)
                   (delay W (1000 * (rc + 1)) (snd (crawlPage_try W u d ref (try_state W u st))))
     in (fst again, (snd again)\<lparr>activeRequests := activeRequests (snd again) - 1\<rparr>))"
  using assms
  by (subst crawlPage.simps) (simp add: Let_def try_state_def robots_check_def)

lemma worker_iter_thrown:
  assumes "queue st = item # rest" and "url item \<notin> visited st"
    and "fst (crawlPage W (url item) (depth item) (referrer item) 0 (gate W (st\<lparr>queue := rest\<rparr>))) = Inl e"
  shows "errors (worker_iter W st) =
      errors st @ [\<lparr>err_url = url item, err = e,
        timestamp = now (snd (crawlPage W (url item) (depth item) (referrer item) 0
                               (gate W (st\<lparr>queue := rest\<rparr>))))\<rparr>]"
    and "index (worker_iter W st) = index st"
  using assms(3)
  by (simp_all add: worker_iter_run [OF assms(1,2)] requestFn_def case_prod_beta delay_frame
      handleCrawlError_def crawlPage_frame gate_frame)

text \<open>
  C1, amended. A response with a non-2xx status, or a 2xx response whose content type
  does not contain \<open>text/html\<close>, makes the \<open>try\<close> block of \<open>crawlPage\<close> throw an
  ordinary error. \<open>crawlPage\<close> handles it as it handles every error that is not an
  \<open>AbortError\<close>: when \<open>retryCount\<close> has reached \<open>maxRetries\<close> it rethrows the error
  after that one page fetch; while \<open>retryCount < maxRetries\<close> it waits
  \<open>1000 * (retryCount + 1)\<close> ms and calls itself again. An error that \<open>crawlPage\<close>
  throws is recorded at once by the worker as one \<open>CrawlError\<close> for the URL, and no page
  is recorded.
\<close>

theorem http_error_like_any_failure:
  "(fst (fetchWithTimeout W PageFetch u s) = Inr r \<and> \<not> ok r \<longrightarrow>
      fst (crawlPage_try W u d ref s) = Inl (HttpError (status r))) \<and>
   (fst (fetchWithTimeout W PageFetch u s) = Inr r \<and> ok r \<and>
    \<not> includes_str (content_type_of r) ''text/html'' \<longrightarrow>
      fst (crawlPage_try W u d ref s) = Inl (UnsupportedContentType (content_type_of r))) \<and>
   (u \<notin> visited st \<and> fst (robots_check W u st) \<and>
    fst (crawlPage_try W u d ref (try_state W u st)) = Inl e \<and> e \<noteq> AbortError \<and>
    maxRetries (config W) \<le> rc \<longrightarrow>
      fst (crawlPage W u d ref rc st) = Inl e \<and>
      page_fetches (new_events st (snd (crawlPage W u d ref rc st))) = [u]) \<and>
   (u \<notin> visited st \<and> fst (robots_check W u st) \<and>
    fst (crawlPage_try W u d ref (try_state W u st)) = Inl e \<and> e \<noteq> AbortError \<and>
    rc < maxRetries (config W) \<longrightarrow>
      crawlPage W u d ref rc st =
        (let again = crawlPage W u d ref (rc + 1)
                       (delay W (1000 * (rc + 1)) (snd (crawlPage_try W u d ref (try_state W u st))))
         in (fst again, (snd again)\<lparr>activeRequests := activeRequests (snd again) - 1\<rparr>))) \<and>
   (loop_cond W t \<and> queue t = item # rest \<and> url item \<notin> visited t \<and>
    fst (crawlPage W (url item) (depth item) (referrer item) 0 (gate W (t\<lparr>queue := rest\<rparr>))) = Inl e'
    \<longrightarrow>
      errors (worker_iter W t) =
        errors t @ [\<lparr>err_url = url item, err = e',
          timestamp = now (snd (crawlPage W (url item) (depth item) (referrer item) 0
                                 (gate W (t\<lparr>queue := rest\<rparr>))))\<rparr>] \<and>
      index (worker_iter W t) = index t)"
proof (intro conjI impI)
  assume "fst (fetchWithTimeout W PageFetch u s) = Inr r \<and> \<not> ok r"
  then show "fst (crawlPage_try W u d ref s) = Inl (HttpError (status r))"
    by (simp add: crawlPage_try_def case_prod_beta)
next
  assume "fst (fetchWithTimeout W PageFetch u s) = Inr r \<and> ok r \<and>
    \<not> includes_str (content_type_of r) ''text/html''"
  then show "fst (crawlPage_try W u d ref s) = Inl (UnsupportedContentType (content_type_of r))"
    by (simp add: crawlPage_try_def case_prod_beta content_type_of_def Let_def)
next
  assume a: "u \<notin> visited st \<and> fst (robots_check W u st) \<and>
    fst (crawlPage_try W u d ref (try_state W u st)) = Inl e \<and> e \<noteq> AbortError \<and>
    maxRetries (config W) \<le> rc"
  then have "crawlPage W u d ref rc st =
    (Inl e, (snd (crawlPage_try W u d ref (try_state W u st)))
              \<lparr>activeRequests := activeRequests (try_state W u st) - 1\<rparr>)"
    using crawlPage_thrown [of u st W d ref e rc] by simp
  then show "fst (crawlPage W u d ref rc st) = Inl e" by simp
  from a show "page_fetches (new_events st (snd (crawlPage W u d ref rc st))) = [u]"
    by (simp add: new_events_append [OF crawlPage_log_allowed] log_filters_simps
        check_events_kinds page_event_def)
next
  assume "u \<notin> visited st \<and> fst (robots_check W u st) \<and>
    fst (crawlPage_try W u d ref (try_state W u st)) = Inl e \<and> e \<noteq> AbortError \<and>
    rc < maxRetries (config W)"
  then show "crawlPage W u d ref rc st =
        (let again = crawlPage W u d ref (rc + 1)
                       (delay W (1000 * (rc + 1)) (snd (crawlPage_try W u d ref (try_state W u st))))
         in (fst again, (snd again)\<lparr>activeRequests := activeRequests (snd again) - 1\<rparr>))"
    using crawlPage_retry [of u st W d ref e rc] by blast
next
  assume a: "loop_cond W t \<and> queue t = item # rest \<and> url item \<notin> visited t \<and>
    fst (crawlPage W (url item) (depth item) (referrer item) 0 (gate W (t\<lparr>queue := rest\<rparr>))) = Inl e'"
  then show "errors (worker_iter W t) =
        errors t @ [\<lparr>err_url = url item, err = e',
          timestamp = now (snd (crawlPage W (url item) (depth item) (referrer item) 0
                                 (gate W (t\<lparr>queue := rest\<rparr>))))\<rparr>]"
    using worker_iter_thrown(1) [of t item rest W e'] by blast
  from a show "index (worker_iter W t) = index t"
    using worker_iter_thrown(2) [of t item rest W e'] by blast
qed

theorem http_error_like_any_failure_witness:
  "fst (fetchWithTimeout world_404_noretry PageFetch seed_url
         (try_state world_404_noretry seed_url
            (gate world_404_noretry ((start_state seed_url 0)\<lparr>queue := []\<rparr>))))
     = Inr not_found \<and>
   \<not> ok not_found \<and>
   fst (crawlPage_try world_404_noretry seed_url 0 None
         (try_state world_404_noretry seed_url
            (gate world_404_noretry ((start_state seed_url 0)\<lparr>queue := []\<rparr>))))
     = Inl (HttpError 404) \<and>
   maxRetries (config world_404_noretry) \<le> 0 \<and>
   fst (crawlPage world_404_noretry seed_url 0 None 0
         (gate world_404_noretry ((start_state seed_url 0)\<lparr>queue := []\<rparr>)))
     = Inl (HttpError 404) \<and>
   loop_cond world_404_noretry (start_state seed_url 0) \<and>
   map err (errors (worker_iter world_404_noretry (start_state seed_url 0))) = [HttpError 404] \<and>
   map err_url (errors (worker_iter world_404_noretry (start_state seed_url 0))) = [seed_url] \<and>
   index (worker_iter world_404_noretry (start_state seed_url 0)) = [] \<and>
   fst (fetchWithTimeout world_pdf PageFetch seed_url (start_state seed_url 0)) = Inr pdf_response \<and>
   ok pdf_response \<and>
   \<not> includes_str (content_type_of pdf_response) ''text/html'' \<and>
   fst (crawlPage_try world_pdf seed_url 0 None (start_state seed_url 0))
     = Inl (UnsupportedContentType ''application/pdf'') \<and>
   (0::int) < maxRetries (config world_404) \<and>
   fst (crawlPage world_404 seed_url 0 None 0 (start_state seed_url 0)) =
     fst (crawlPage world_404 seed_url 0 None 1
            (delay world_404 1000
               (snd (crawlPage_try world_404 seed_url 0 None
                       (try_state world_404 seed_url (start_state seed_url 0))))))"
proof -
  let ?W = world_404_noretry
  let ?t = "start_state seed_url 0"
  let ?g = "gate ?W (?t\<lparr>queue := []\<rparr>)"
  have f1: "fst (fetchWithTimeout ?W PageFetch seed_url (try_state ?W seed_url ?g)) = Inr not_found"
    by code_simp
  have nk: "\<not> ok not_found" by (simp add: ok_def not_found_def)
  have st404: "status not_found = 404" by (simp add: not_found_def)
  note T = http_error_like_any_failure
  from T [where W = ?W and u = seed_url and s = "try_state ?W seed_url ?g" and r = not_found
      and d = 0 and ref = None] f1 nk st404
  have a: "fst (crawlPage_try ?W seed_url 0 None (try_state ?W seed_url ?g)) = Inl (HttpError 404)"
    by simp
  have mr: "maxRetries (config ?W) \<le> 0"
    by (simp add: world_404_noretry_def default_config_def)
  have nv: "seed_url \<notin> visited ?g" by (simp add: gate_frame start_state_def fresh_def)
  have rc: "fst (robots_check ?W seed_url ?g)"
    by (simp add: robots_check_def world_404_noretry_def default_config_def)
  from T [where W = ?W and u = seed_url and st = ?g and e = "HttpError 404" and rc = 0
      and d = 0 and ref = None] nv rc a mr
  have b: "fst (crawlPage ?W seed_url 0 None 0 ?g) = Inl (HttpError 404)"
    by simp
  have q: "queue ?t = seed_item seed_url # []" by (simp add: start_state_def)
  have v: "url (seed_item seed_url) \<notin> visited ?t" by (simp add: start_state_def fresh_def)
  have b': "fst (crawlPage ?W (url (seed_item seed_url)) (depth (seed_item seed_url))
                  (referrer (seed_item seed_url)) 0 ?g) = Inl (HttpError 404)"
    using b by (simp add: seed_item_def)
  have et: "errors ?t = []" "index ?t = []" by (simp_all add: start_state_def fresh_def)
  have lc: "loop_cond ?W ?t" by code_simp
  from T [where W = ?W and t = ?t and item = "seed_item seed_url" and rest = "[]"
      and e' = "HttpError 404"] lc q v b'
  have c: "errors (worker_iter ?W ?t) =
      errors ?t @ [\<lparr>err_url = url (seed_item seed_url), err = HttpError 404,
        timestamp = now (snd (crawlPage ?W (url (seed_item seed_url)) (depth (seed_item seed_url))
                  (referrer (seed_item seed_url)) 0 ?g))\<rparr>]"
    and d: "index (worker_iter ?W ?t) = index ?t"
    by simp_all
  from c et have c1: "map err (errors (worker_iter ?W ?t)) = [HttpError 404]"
    and c2: "map err_url (errors (worker_iter ?W ?t)) = [seed_url]"
    by (simp_all add: seed_item_def)
  from d et have d1: "index (worker_iter ?W ?t) = []" by simp
  have f3: "fst (fetchWithTimeout world_pdf PageFetch seed_url ?t) = Inr pdf_response"
    by code_simp
  have okp: "ok pdf_response" by (simp add: ok_def pdf_response_def)
  have ct: "content_type_of pdf_response = ''application/pdf''"
    by (simp add: content_type_of_def pdf_response_def)
  have ni: "\<not> includes_str (content_type_of pdf_response) ''text/html''"
    unfolding ct by simp
  from T [where W = world_pdf and u = seed_url and s = ?t and r = pdf_response
      and d = 0 and ref = None] f3 okp ni ct
  have e: "fst (crawlPage_try world_pdf seed_url 0 None ?t)
     = Inl (UnsupportedContentType ''application/pdf'')"
    by simp
  have mr2: "(0::int) < maxRetries (config world_404)"
    by (simp add: world_404_def default_config_def)
  have nv2: "seed_url \<notin> visited ?t" by (simp add: start_state_def fresh_def)
  have rc2: "fst (robots_check world_404 seed_url ?t)"
    by (simp add: robots_check_def world_404_def default_config_def)
  have f4: "fst (crawlPage_try world_404 seed_url 0 None (try_state world_404 seed_url ?t))
     = Inl (HttpError 404)"
    by code_simp
  from T [where W = world_404 and u = seed_url and st = ?t and e = "HttpError 404" and rc = 0
      and d = 0 and ref = None] nv2 rc2 f4 mr2
  have g: "crawlPage world_404 seed_url 0 None 0 ?t =
        (let again = crawlPage world_404 seed_url 0 None (0 + 1)
                       (delay world_404 (1000 * (0 + 1))
                          (snd (crawlPage_try world_404 seed_url 0 None (try_state world_404 seed_url ?t))))
         in (fst again, (snd again)\<lparr>activeRequests := activeRequests (snd again) - 1\<rparr>))"
    by simp
  then have g1: "fst (crawlPage world_404 seed_url 0 None 0 ?t) =
     fst (crawlPage world_404 seed_url 0 None 1
            (delay world_404 1000
               (snd (crawlPage_try world_404 seed_url 0 None (try_state world_404 seed_url ?t)))))"
    by (simp add: Let_def)
  show ?thesis by (intro conjI f1 nk a mr b lc c1 c2 d1 f3 okp ni e mr2 g1)
qed

subsection \<open>C2: a stop during a fetch\<close>

text \<open>
  C2, at the failing input. The user stops the crawl at time 1020 while the fetch of the
  start URL, begun at time 1000, is in flight. The fetch rejects with \<open>AbortError\<close>;
  \<open>crawlPage\<close> rethrows it, the \<open>catch\<close> of \<open>crawlWorker\<close> hands it to
  \<open>handleCrawlError\<close>, and the completed crawl lists it among its errors.
\<close>

theorem stop_is_recorded_as_error:
  "startCrawl world_stop seed_url 0 = Inr (run_crawl world_stop seed_url 0) \<and>
   stop_at world_stop = Some 1020 \<and>
   stopFlag (run_crawl world_stop seed_url 0) \<and>
   map ev_time (fetch_log (run_crawl world_stop seed_url 0)) = [1000] \<and>
   errors (run_crawl world_stop seed_url 0) =
     [\<lparr>err_url = ''https://example.com/'', err = AbortError, timestamp = 1020\<rparr>]"
proof -
  have "stop_at world_stop = Some 1020" by (simp add: world_stop_def)
  moreover have "stopFlag (run_crawl world_stop seed_url 0)" by code_simp
  moreover have "map ev_time (fetch_log (run_crawl world_stop seed_url 0)) = [1000]"
    by code_simp
  moreover have "errors (run_crawl world_stop seed_url 0) =
     [\<lparr>err_url = ''https://example.com/'', err = AbortError, timestamp = 1020\<rparr>]"
    by code_simp
  ultimately show ?thesis using startCrawl_valid [OF world_stop_valid, of 0] by simp
qed

subsection \<open>C3: retries and timeouts\<close>

text \<open>
  C3, at the failing inputs. With \<open>maxRetries = 2\<close> and a network that fails every
  request, the start URL is fetched once, not three times, and no error is recorded: the
  retry calls \<open>crawlPage\<close> again, which finds the URL in \<open>visited\<close> and returns
  \<open>null\<close>. With a page that answers after the timeout, the timer aborts the crawl's
  one controller: the page's error is an \<open>AbortError\<close>, which is not retried, and the
  next page fails with \<open>AbortError\<close> without a request being sent.
\<close>

theorem retry_never_refetches:
  "startCrawl world_down seed_url 0 = Inr (run_crawl world_down seed_url 0) \<and>
   maxRetries (config world_down) = 2 \<and>
   map ev_url (fetch_log (run_crawl world_down seed_url 0)) = [''https://example.com/''] \<and>
   errors (run_crawl world_down seed_url 0) = [] \<and>
   startCrawl world_slow seed_url 0 = Inr (run_crawl world_slow seed_url 0) \<and>
   map ev_url (fetch_log (run_crawl world_slow seed_url 0)) =
     [''https://example.com/'', ''https://example.com/'', ''https://example.com/a'',
      ''https://example.com/b''] \<and>
   map ev_sent (fetch_log (run_crawl world_slow seed_url 0)) = [True, True, True, False] \<and>
   errors (run_crawl world_slow seed_url 0) =
     [\<lparr>err_url = ''https://example.com/a'', err = AbortError, timestamp = 12000\<rparr>,
      \<lparr>err_url = ''https://example.com/b'', err = AbortError, timestamp = 12100\<rparr>]"
proof -
  have "maxRetries (config world_down) = 2" by (simp add: world_down_def default_config_def)
  moreover have "map ev_url (fetch_log (run_crawl world_down seed_url 0)) = [''https://example.com/'']"
    by code_simp
  moreover have "errors (run_crawl world_down seed_url 0) = []" by code_simp
  moreover have "map ev_url (fetch_log (run_crawl world_slow seed_url 0)) =
     [''https://example.com/'', ''https://example.com/'', ''https://example.com/a'',
      ''https://example.com/b'']" by code_simp
  moreover have "map ev_sent (fetch_log (run_crawl world_slow seed_url 0)) = [True, True, True, False]"
    by code_simp
  moreover have "errors (run_crawl world_slow seed_url 0) =
     [\<lparr>err_url = ''https://example.com/a'', err = AbortError, timestamp = 12000\<rparr>,
      \<lparr>err_url = ''https://example.com/b'', err = AbortError, timestamp = 12100\<rparr>]" by code_simp
  ultimately show ?thesis
    using startCrawl_valid [OF world_down_valid, of 0] startCrawl_valid [OF world_slow_valid, of 0]
    by simp
qed

subsection \<open>C4: when a URL enters the visited set\<close>

text \<open>
  Against C4 as stated: robots.txt disallows \<open>/admin\<close>, and the home page links twice
  to \<open>http://example.com/admin\<close>. Both queue items pass the rate limiter (dispatches at
  2000 and 3000) and are skipped by the robots test; the URL is not in \<open>visited\<close> when
  the crawl completes.
\<close>

theorem denied_url_not_visited_counterexample:
  "startCrawl world_robots seed_url 0 = Inr (run_crawl world_robots seed_url 0) \<and>
   ''http://example.com/admin'' \<notin> visited (run_crawl world_robots seed_url 0) \<and>
   skipped (run_crawl world_robots seed_url 0) = 2 \<and>
   gate_log (run_crawl world_robots seed_url 0) = [1000, 2000, 3000] \<and>
   map ev_url (fetch_log (run_crawl world_robots seed_url 0)) =
     [''https://example.com/robots.txt'', ''https://example.com/'', ''https://example.com/'',
      ''http://example.com/robots.txt'']"
proof -
  have "''http://example.com/admin'' \<notin> visited (run_crawl world_robots seed_url 0)"
    by code_simp
  moreover have "skipped (run_crawl world_robots seed_url 0) = 2" by code_simp
  moreover have "gate_log (run_crawl world_robots seed_url 0) = [1000, 2000, 3000]" by code_simp
  moreover have "map ev_url (fetch_log (run_crawl world_robots seed_url 0)) =
     [''https://example.com/robots.txt'', ''https://example.com/'', ''https://example.com/'',
      ''http://example.com/robots.txt'']" by code_simp
  ultimately show ?thesis using startCrawl_valid [OF world_robots_valid, of 0] by simp
qed

text \<open>
  C4, amended. The worker drops a dequeued URL that is already in \<open>visited\<close>, and
  \<open>crawlPage\<close> returns \<open>null\<close> for such a URL without a robots test or a fetch. For
  a URL not yet visited, \<open>crawlPage\<close> first makes the robots test: when it denies, the
  URL is not inserted and no page is fetched; when it allows, the URL is inserted and the
  page fetch follows the robots test. Hence, over a whole crawl, the page fetches of
  \<open>crawlPage\<close> are for distinct URLs, all of them visited.
\<close>

theorem visited_after_robots_check:
  "(loop_cond W st \<and> queue st = item # rest \<and> url item \<in> visited st \<longrightarrow>
      worker_iter W st = st\<lparr>queue := rest\<rparr>) \<and>
   (u \<in> visited st \<longrightarrow> crawlPage W u d ref rc st = (Inr None, st)) \<and>
   (u \<notin> visited st \<and> \<not> fst (robots_check W u st) \<longrightarrow>
      visited (snd (crawlPage W u d ref rc st)) = visited st \<and>
      page_fetches (new_events st (snd (crawlPage W u d ref rc st))) = []) \<and>
   (u \<notin> visited st \<and> fst (robots_check W u st) \<longrightarrow>
      visited (snd (crawlPage W u d ref rc st)) = insert u (visited st) \<and>
      new_events st (snd (crawlPage W u d ref rc st)) =
        check_events W u st @ [page_event u (snd (robots_check W u st))]) \<and>
   distinct (page_fetches (fetch_log (run_crawl W startUrl t0))) \<and>
   set (page_fetches (fetch_log (run_crawl W startUrl t0))) \<subseteq> visited (run_crawl W startUrl t0)"
proof (intro conjI impI)
  assume "loop_cond W st \<and> queue st = item # rest \<and> url item \<in> visited st"
  then show "worker_iter W st = st\<lparr>queue := rest\<rparr>" by (simp add: worker_iter_skip)
next
  assume "u \<in> visited st"
  then show "crawlPage W u d ref rc st = (Inr None, st)" by (rule crawlPage_visited)
next
  assume a: "u \<notin> visited st \<and> \<not> fst (robots_check W u st)"
  then show "visited (snd (crawlPage W u d ref rc st)) = visited st"
    by (simp add: crawlPage_denied robots_check_frame)
  from a show "page_fetches (new_events st (snd (crawlPage W u d ref rc st))) = []"
    by (simp add: new_events_append [OF crawlPage_log_denied] check_events_kinds)
next
  assume a: "u \<notin> visited st \<and> fst (robots_check W u st)"
  then show "visited (snd (crawlPage W u d ref rc st)) = insert u (visited st)"
    by (simp add: crawlPage_allowed_fields)
  from a show "new_events st (snd (crawlPage W u d ref rc st)) =
        check_events W u st @ [page_event u (snd (robots_check W u st))]"
    by (simp add: new_events_append [OF crawlPage_log_allowed])
next
  have g: "grows (start_state startUrl t0) (run_crawl W startUrl t0)" by (rule grows_run_crawl)
  then obtain evs where e: "fetch_log (run_crawl W startUrl t0) = fetch_log (start_state startUrl t0) @ evs"
    "distinct (page_fetches evs)" "set (page_fetches evs) \<subseteq> visited (run_crawl W startUrl t0)"
    unfolding grows_def by blast
  have "fetch_log (start_state startUrl t0) = []" by (simp add: start_state_def fresh_def)
  with e show "distinct (page_fetches (fetch_log (run_crawl W startUrl t0)))"
    and "set (page_fetches (fetch_log (run_crawl W startUrl t0))) \<subseteq> visited (run_crawl W startUrl t0)"
    by simp_all
qed

theorem visited_after_robots_check_witness:
  "seed_url \<notin> visited (start_state seed_url 0) \<and>
   fst (robots_check world_robots seed_url (start_state seed_url 0)) \<and>
   visited (snd (crawlPage world_robots seed_url 0 None 0 (start_state seed_url 0))) =
     insert seed_url (visited (start_state seed_url 0)) \<and>
   ''http://example.com/admin'' \<notin> visited (start_state seed_url 0) \<and>
   \<not> fst (robots_check world_robots ''http://example.com/admin'' (start_state seed_url 0)) \<and>
   visited (snd (crawlPage world_robots ''http://example.com/admin'' 1 None 0 (start_state seed_url 0)))
     = visited (start_state seed_url 0) \<and>
   page_fetches (fetch_log (run_crawl world_robots seed_url 0)) = [''https://example.com/''] \<and>
   distinct (page_fetches (fetch_log (run_crawl world_robots seed_url 0)))"
proof -
  let ?s = "start_state seed_url 0"
  have v: "visited ?s = {}" by (simp add: start_state_def fresh_def)
  have c1: "fst (robots_check world_robots seed_url ?s)" by code_simp
  have c2: "\<not> fst (robots_check world_robots ''http://example.com/admin'' ?s)" by code_simp
  have pf: "page_fetches (fetch_log (run_crawl world_robots seed_url 0)) = [''https://example.com/'']"
    by code_simp
  from visited_after_robots_check
    [where W = world_robots and st = ?s and u = seed_url and d = 0 and ref = None and rc = 0
       and startUrl = seed_url and ?t0.0 = 0] v c1
  have a: "visited (snd (crawlPage world_robots seed_url 0 None 0 ?s)) = insert seed_url (visited ?s)"
    and d: "distinct (page_fetches (fetch_log (run_crawl world_robots seed_url 0)))"
    by simp_all
  from visited_after_robots_check
    [where W = world_robots and st = ?s and u = "''http://example.com/admin''" and d = 1
       and ref = None and rc = 0] v c2
  have b: "visited (snd (crawlPage world_robots ''http://example.com/admin'' 1 None 0 ?s)) = visited ?s"
    by simp
  from v c1 c2 pf a b d show ?thesis by simp
qed

subsection \<open>C5: what the rate limiter spaces\<close>

text \<open>
  Against C5 as stated: with \<open>requestDelay = 1000\<close>, the crawl of the small site
  starts its first two fetches, both for the home page (one from \<open>crawlPage\<close>, one from
  \<open>extractLinks\<close>), at times 1000 and 1050.
\<close>

theorem fetch_spacing_counterexample:
  "startCrawl world_plain seed_url 0 = Inr (run_crawl world_plain seed_url 0) \<and>
   requestDelay (config world_plain) = 1000 \<and>
   map ev_time (fetch_log (run_crawl world_plain seed_url 0)) = [1000, 1050, 2000, 3000] \<and>
   \<not> spaced (requestDelay (config world_plain))
       (map ev_time (fetch_log (run_crawl world_plain seed_url 0)))"
proof -
  have "requestDelay (config world_plain) = 1000"
    by (simp add: world_plain_def default_config_def)
  then show ?thesis
    using world_plain_started world_plain_fetch_times by simp
qed

text \<open>
  C5, amended. The rate limiter spaces its dispatches, one per work item that reaches
  \<open>crawlPage\<close>: the values it assigns to \<open>lastRequestTime\<close> are at least
  \<open>requestDelay\<close> apart, after every iteration and when the crawl completes. The
  fetches made under one dispatch are not spaced from one another.
\<close>

theorem dispatch_spacing:
  "spaced (requestDelay (config W)) (gate_log ((crawl_step W ^^ n) (start_state u t0))) \<and>
   spaced (requestDelay (config W)) (gate_log (run_crawl W u t0)) \<and>
   (\<forall>st. startCrawl W u t0 = Inr st \<longrightarrow> spaced (requestDelay (config W)) (gate_log st))"
proof -
  have init: "gate_inv W (start_state u t0)"
    by (simp add: gate_inv_def start_state_def fresh_def)
  have step: "\<And>s. gate_inv W s \<Longrightarrow> loop_cond W s \<Longrightarrow> gate_inv W (worker_iter W s)"
    by (rule gate_inv_step)
  have a: "gate_inv W ((crawl_step W ^^ n) (start_state u t0))"
    using init step by (rule crawl_steps_invariant)
  have b: "gate_inv W (run_crawl W u t0)"
    unfolding run_crawl_def using init step by (rule processCrawlQueue_invariant)
  from a b show ?thesis by (simp add: gate_inv_def startCrawl_def)
qed

theorem dispatch_spacing_witness:
  "startCrawl world_plain seed_url 0 = Inr (run_crawl world_plain seed_url 0) \<and>
   gate_log (run_crawl world_plain seed_url 0) = [1000, 2000, 3000] \<and>
   spaced (requestDelay (config world_plain)) (gate_log (run_crawl world_plain seed_url 0))"
  using dispatch_spacing [of world_plain 0 seed_url 0] world_plain_started world_plain_gate_log
  by blast

subsection \<open>C6: the page cap\<close>

text \<open>
  C6. With a non-negative \<open>maxPages\<close> (the configuration store clamps it to 1..1000),
  the number of page records is at most \<open>maxPages\<close> after every iteration of the
  worker loop and when the crawl completes. Inside an iteration the list only grows by
  the one \<open>push\<close> whose result the next state shows. All workers but the first return
  before any page is recorded, so the first worker's loop is the whole crawl.
\<close>

theorem page_cap:
  assumes "0 \<le> maxPages (config W)"
  shows "int (length (index ((crawl_step W ^^ n) (start_state u t0)))) \<le> maxPages (config W) \<and>
         int (length (index (run_crawl W u t0))) \<le> maxPages (config W) \<and>
         (\<forall>st. startCrawl W u t0 = Inr st \<longrightarrow> int (length (index st)) \<le> maxPages (config W))"
proof -
  let ?P = "\<lambda>s. int (length (index s)) \<le> maxPages (config W)"
  have init: "?P (start_state u t0)"
    using assms by (simp add: start_state_def fresh_def)
  have step: "\<And>s. ?P s \<Longrightarrow> loop_cond W s \<Longrightarrow> ?P (worker_iter W s)"
    by (rule page_cap_step)
  have a: "?P ((crawl_step W ^^ n) (start_state u t0))"
    using init step by (rule crawl_steps_invariant)
  have b: "?P (run_crawl W u t0)"
    unfolding run_crawl_def using init step by (rule processCrawlQueue_invariant)
  have c: "\<forall>st. startCrawl W u t0 = Inr st \<longrightarrow> ?P st"
    using b by (simp add: startCrawl_def)
  from a b c show ?thesis by blast
qed

theorem page_cap_witness:
  "0 \<le> maxPages (config world_plain) \<and>
   int (length (index ((crawl_step world_plain ^^ 2) (start_state seed_url 0))))
     \<le> maxPages (config world_plain) \<and>
   startCrawl world_plain seed_url 0 = Inr (run_crawl world_plain seed_url 0) \<and>
   int (length (index (run_crawl world_plain seed_url 0))) \<le> maxPages (config world_plain)"
proof -
  have h: "0 \<le> maxPages (config world_plain)"
    by (simp add: world_plain_def default_config_def)
  from page_cap [OF h, of 2 seed_url 0] world_plain_started h show ?thesis by blast
qed

subsection \<open>C7: the robots.txt decision\<close>

lemma robots_example_public: "parseRobotsTxt ua robots_body ''/public/x'' = True"
  by (simp add: parseRobotsTxt_def robots_body_lines robots_line_def toLowerCase_def
      lower_char_def trim_def is_space_def)

lemma robots_example_other: "parseRobotsTxt ua robots_body ''/other'' = True"
  by (simp add: parseRobotsTxt_def robots_body_lines robots_line_def toLowerCase_def
      lower_char_def trim_def is_space_def)

lemma robots_example_overlap: "parseRobotsTxt ua robots_body_overlap ''/admin/public/x'' = False"
  by (simp add: parseRobotsTxt_def robots_body_overlap_lines robots_line_def toLowerCase_def
      lower_char_def trim_def is_space_def)

text \<open>
  C7. For the body \<open>User-agent: *\<close> / \<open>Disallow: /admin\<close> / \<open>Allow: /public\<close>,
  \<open>parseRobotsTxt\<close> denies \<open>/admin/x\<close>, allows \<open>/public/x\<close> and allows \<open>/other\<close>.
  For every body and path its answer is that of the last rule, among the rules of the
  matching user-agent blocks in order, whose non-empty prefix starts the path, and allow
  when there is none. The longest prefix does not decide: after \<open>Allow: /admin/public\<close>
  and then \<open>Disallow: /admin\<close>, the path \<open>/admin/public/x\<close> is denied.
\<close>

theorem parseRobotsTxt_last_match_wins:
  "parseRobotsTxt ua robots_body ''/admin/x'' = False \<and>
   parseRobotsTxt ua robots_body ''/public/x'' = True \<and>
   parseRobotsTxt ua robots_body ''/other'' = True \<and>
   parseRobotsTxt ua txt p =
     last_match_wins (active_rules ua False (map trim (split_lines txt))) p \<and>
   parseRobotsTxt ua robots_body_overlap ''/admin/public/x'' = False"
  using robots_example_admin robots_example_public robots_example_other
    robots_example_overlap parseRobotsTxt_last_match
  by blast

theorem parseRobotsTxt_last_match_wins_witness:
  "parseRobotsTxt ''WebWarden Crawler 2.0'' robots_body ''/admin/x'' = False \<and>
   parseRobotsTxt ''WebWarden Crawler 2.0'' robots_body ''/public/x'' = True \<and>
   parseRobotsTxt ''WebWarden Crawler 2.0'' robots_body ''/other'' = True \<and>
   last_match_wins
     (active_rules ''WebWarden Crawler 2.0'' False (map trim (split_lines robots_body_overlap)))
     ''/admin/public/x'' = False"
  using parseRobotsTxt_last_match_wins
    [of "''WebWarden Crawler 2.0''" robots_body_overlap "''/admin/public/x''"]
  by blast

subsection \<open>C8: link discovery and domain confinement\<close>

text \<open>
  C8. \<open>extractLinks\<close> returns the first 20, in document order, of the links made from
  the hyperlinks of the document it fetched that are valid http/https URLs, not in
  \<open>visited\<close> and on the host of the page; every such link is the resolution of a
  non-empty \<open>href\<close> against the page URL, with the next depth and the page as referrer.
  What an iteration of the worker appends to the queue is such a list, for depth
  \<open>depth + 1\<close>. When the platform's \<open>URL\<close> class parses the \<open>href\<close> of a parsed URL
  to the same host name, every queued item and every recorded page of a crawl is on the
  host of the start URL.
\<close>

theorem links_same_host_capped:
  assumes "href_stable W"
  shows
    "fst (extractLinks W u nd s) =
       (case fst (fetchWithTimeout W LinkFetch u s) of
          Inl e \<Rightarrow> []
        | Inr resp \<Rightarrow>
            (case parse_url W u of
               None \<Rightarrow> []
             | Some b \<Rightarrow>
                 take 20 (filter (link_ok W s b)
                            (candidate_links W u nd (parse_html W (body resp)))))) \<and>
     (\<forall>l \<in> set (candidate_links W u nd doc).
        depth l = nd \<and> referrer l = Some u \<and>
        (\<exists>a \<in> set (anchors doc). fst a \<noteq> [] \<and> resolve_url W (fst a) u = Some (url l))) \<and>
     (loop_cond W st \<and> queue st = item # rest \<longrightarrow>
        (\<exists>links. queue (worker_iter W st) = rest @ links \<and> length links \<le> 20 \<and>
           (\<forall>l \<in> set links.
              depth l = depth item + 1 \<and> referrer l = Some (url item) \<and>
              (\<exists>h. h \<noteq> [] \<and> resolve_url W h (url item) = Some (url l)) \<and>
              isValidUrl W (url l) \<and> isSameDomain W (url l) (url item) \<and>
              url l \<notin> visited (worker_iter W st)))) \<and>
     (isValidUrl W startUrl \<longrightarrow> host_inv W startUrl ((crawl_step W ^^ n) (start_state startUrl t0))) \<and>
     (\<forall>st'. startCrawl W startUrl t0 = Inr st' \<longrightarrow>
        (\<forall>p \<in> set (index st'). isSameDomain W (page_url p) startUrl))"
proof (intro conjI impI allI)
  show "fst (extractLinks W u nd s) =
       (case fst (fetchWithTimeout W LinkFetch u s) of
          Inl e \<Rightarrow> []
        | Inr resp \<Rightarrow>
            (case parse_url W u of
               None \<Rightarrow> []
             | Some b \<Rightarrow>
                 take 20 (filter (link_ok W s b)
                            (candidate_links W u nd (parse_html W (body resp))))))"
    by (rule extractLinks_eq)
next
  show "\<forall>l \<in> set (candidate_links W u nd doc).
        depth l = nd \<and> referrer l = Some u \<and>
        (\<exists>a \<in> set (anchors doc). fst a \<noteq> [] \<and> resolve_url W (fst a) u = Some (url l))"
    using candidate_links_props [of _ W u nd doc] by blast
next
  assume "loop_cond W st \<and> queue st = item # rest"
  then have "queue st = item # rest" by simp
  with assms show "\<exists>links. queue (worker_iter W st) = rest @ links \<and> length links \<le> 20 \<and>
           (\<forall>l \<in> set links.
              depth l = depth item + 1 \<and> referrer l = Some (url item) \<and>
              (\<exists>h. h \<noteq> [] \<and> resolve_url W h (url item) = Some (url l)) \<and>
              isValidUrl W (url l) \<and> isSameDomain W (url l) (url item) \<and>
              url l \<notin> visited (worker_iter W st))"
    by (rule worker_iter_links)
next
  assume v: "isValidUrl W startUrl"
  show "host_inv W startUrl ((crawl_step W ^^ n) (start_state startUrl t0))"
    by (rule crawl_steps_invariant [where P = "host_inv W startUrl"])
       (simp_all add: host_inv_start [OF v] host_inv_step [OF assms])
next
  fix st'
  assume s: "startCrawl W startUrl t0 = Inr st'"
  then have v: "isValidUrl W startUrl" and e: "st' = run_crawl W startUrl t0"
    by (auto simp: startCrawl_def split: if_splits)
  have "host_inv W startUrl (processCrawlQueue W (start_state startUrl t0))"
    by (rule processCrawlQueue_invariant [where P = "host_inv W startUrl"])
       (simp_all add: host_inv_start [OF v] host_inv_step [OF assms])
  then show "\<forall>p \<in> set (index st'). isSameDomain W (page_url p) startUrl"
    by (simp add: e run_crawl_def host_inv_def)
qed

lemma site_urls_href:
  assumes "map_of site_urls u = Some a"
  shows "href a = u"
proof -
  from assms have "(u, a) \<in> set site_urls" by (rule map_of_SomeD)
  then show ?thesis by (auto simp: site_urls_def site_url_def)
qed

lemma world_plain_href_stable: "href_stable world_plain"
proof -
  have p: "parse_url world_plain = map_of site_urls"
    by (simp add: world_plain_def site_def)
  show ?thesis
    unfolding href_stable_def p
  proof (intro allI impI)
    fix u a b
    assume 1: "map_of site_urls u = Some a" and 2: "map_of site_urls (href a) = Some b"
    from 1 have "href a = u" by (rule site_urls_href)
    with 1 2 show "hostname b = hostname a" by simp
  qed
qed

theorem links_same_host_capped_witness:
  "href_stable world_plain \<and>
   loop_cond world_plain (start_state seed_url 0) \<and>
   queue (start_state seed_url 0) = seed_item seed_url # [] \<and>
   map url (queue (worker_iter world_plain (start_state seed_url 0))) =
     [''https://example.com/a'', ''https://example.com/b''] \<and>
   map depth (queue (worker_iter world_plain (start_state seed_url 0))) = [1, 1] \<and>
   list_all (\<lambda>l. isSameDomain world_plain (url l) seed_url)
     (queue (worker_iter world_plain (start_state seed_url 0))) \<and>
   isValidUrl world_plain seed_url \<and>
   host_inv world_plain seed_url ((crawl_step world_plain ^^ 1) (start_state seed_url 0)) \<and>
   startCrawl world_plain seed_url 0 = Inr (run_crawl world_plain seed_url 0) \<and>
   map page_url (index (run_crawl world_plain seed_url 0)) =
     [''https://example.com/'', ''https://example.com/a'', ''https://example.com/b''] \<and>
   list_all (\<lambda>p. isSameDomain world_plain (page_url p) seed_url)
     (index (run_crawl world_plain seed_url 0))"
proof -
  let ?t = "start_state seed_url 0"
  note T = links_same_host_capped [OF world_plain_href_stable]
  have q: "queue ?t = seed_item seed_url # []" by (simp add: start_state_def)
  have lc: "loop_cond world_plain ?t" by code_simp
  have u: "map url (queue (worker_iter world_plain ?t)) =
     [''https://example.com/a'', ''https://example.com/b'']" by code_simp
  have d: "map depth (queue (worker_iter world_plain ?t)) = [1, 1]" by code_simp
  note T3 = T [THEN conjunct2, THEN conjunct2, THEN conjunct1, THEN mp]
  from T3 [OF conjI [OF lc q]]
  obtain links where l: "queue (worker_iter world_plain ?t) = [] @ links"
    "\<forall>l \<in> set links. isSameDomain world_plain (url l) (url (seed_item seed_url))"
    by (elim exE conjE) blast
  then have la: "list_all (\<lambda>l. isSameDomain world_plain (url l) seed_url)
     (queue (worker_iter world_plain ?t))"
    by (simp add: list_all_iff seed_item_def)
  note T4 = T [THEN conjunct2, THEN conjunct2, THEN conjunct2, THEN conjunct1, THEN mp]
  note T5 = T [THEN conjunct2, THEN conjunct2, THEN conjunct2, THEN conjunct2, THEN spec, THEN mp]
  from T4 [OF world_plain_valid]
  have h: "host_inv world_plain seed_url ((crawl_step world_plain ^^ 1) ?t)" .
  from T5 [OF world_plain_started]
  have "\<forall>p \<in> set (index (run_crawl world_plain seed_url 0)).
      isSameDomain world_plain (page_url p) seed_url" .
  then have lp: "list_all (\<lambda>p. isSameDomain world_plain (page_url p) seed_url)
     (index (run_crawl world_plain seed_url 0))"
    by (simp add: list_all_iff)
  show ?thesis
    by (intro conjI world_plain_href_stable lc q u d la world_plain_valid h world_plain_started
        world_plain_pages lp)
qed

subsection \<open>C9: the robots gate when robots.txt cannot be had\<close>

text \<open>
  Against C9 as stated, twice. First, the request for robots.txt fails in the network:
  the gate answers true, but caches nothing, and robots.txt of the same host is requested
  again for each of the three URLs of the crawl. Second, robots.txt is answered with
  status 404 and the home page links to the same host under \<open>http\<close>: the answer is
  cached under \<open>https://example.com/robots.txt\<close>, and robots.txt of the same host is
  fetched once more, under \<open>http://example.com/robots.txt\<close>.
\<close>

theorem robots_failure_not_cached_counterexample:
  "startCrawl world_robots_down seed_url 0 = Inr (run_crawl world_robots_down seed_url 0) \<and>
   robots_fetches (fetch_log (run_crawl world_robots_down seed_url 0)) =
     [''https://example.com/robots.txt'', ''https://example.com/robots.txt'',
      ''https://example.com/robots.txt''] \<and>
   robotsCache (run_crawl world_robots_down seed_url 0) ''https://example.com/robots.txt'' = None \<and>
   startCrawl world_two_schemes seed_url 0 = Inr (run_crawl world_two_schemes seed_url 0) \<and>
   snd (net world_two_schemes 0 ''https://example.com/robots.txt'') = Responds not_found \<and>
   \<not> ok not_found \<and>
   isSameDomain world_two_schemes ''http://example.com/admin'' seed_url \<and>
   robots_fetches (fetch_log (run_crawl world_two_schemes seed_url 0)) =
     [''https://example.com/robots.txt'', ''http://example.com/robots.txt'']"
proof -
  have a: "robots_fetches (fetch_log (run_crawl world_robots_down seed_url 0)) =
     [''https://example.com/robots.txt'', ''https://example.com/robots.txt'',
      ''https://example.com/robots.txt'']" by code_simp
  have b: "robotsCache (run_crawl world_robots_down seed_url 0) ''https://example.com/robots.txt''
      = None"
    by code_simp
  have c: "snd (net world_two_schemes 0 ''https://example.com/robots.txt'') = Responds not_found"
    by code_simp
  have d: "\<not> ok not_found" by (simp add: ok_def not_found_def)
  have e: "isSameDomain world_two_schemes ''http://example.com/admin'' seed_url" by code_simp
  have f: "robots_fetches (fetch_log (run_crawl world_two_schemes seed_url 0)) =
     [''https://example.com/robots.txt'', ''http://example.com/robots.txt'']" by code_simp
  show ?thesis
    by (intro conjI startCrawl_valid [OF world_robots_down_valid]
        startCrawl_valid [OF world_two_schemes_valid] a b c d e f)
qed

text \<open>
  C9, amended. The robots gate caches per key, the robots.txt URL made of the scheme and
  the host (with its port) of the checked URL. For a URL whose key is not cached, the gate
  fetches that robots.txt. When the answer has a non-success status, the gate returns
  true and caches true under the key. When the fetch itself fails, the gate returns true
  and leaves the cache as it was, so the next check for that key fetches again. When the
  key is cached, the gate answers from the cache without a fetch. In the log of a whole
  crawl, a robots.txt fetch that got a response has its key cached when the crawl
  completes (with the value true when the status was not a success), and no later
  robots.txt fetch of that crawl is for the same key. The same host under another
  scheme or port has another key, and its own fetch.
\<close>

theorem robots_gate_fail_open:
  assumes "parse_url W u = Some uo"
  shows
    "(robotsCache st (robots_url uo) = None \<longrightarrow>
        robots_fetches (new_events st (snd (isAllowedByRobots W u st))) = [robots_url uo]) \<and>
     (robotsCache st (robots_url uo) = None \<and>
      fst (fetch W RobotsFetch None (robots_url uo) st) = Inr r \<and> \<not> ok r \<longrightarrow>
        fst (isAllowedByRobots W u st) \<and>
        robotsCache (snd (isAllowedByRobots W u st)) (robots_url uo) = Some True) \<and>
     (robotsCache st (robots_url uo) = None \<and>
      fst (fetch W RobotsFetch None (robots_url uo) st) = Inl e \<longrightarrow>
        fst (isAllowedByRobots W u st) \<and>
        robotsCache (snd (isAllowedByRobots W u st)) = robotsCache st) \<and>
     (robotsCache st (robots_url uo) = Some b \<longrightarrow> isAllowedByRobots W u st = (b, st)) \<and>
     ((fst (fetch W RobotsFetch None (robots_url uo) st) = Inr r) =
      (robots_reply W (length (fetch_log st)) (robots_event (robots_url uo) st) = Some r)) \<and>
     (i < length (fetch_log (run_crawl W startUrl t0)) \<and>
      ev_kind (fetch_log (run_crawl W startUrl t0) ! i) = RobotsFetch \<and>
      robots_reply W i (fetch_log (run_crawl W startUrl t0) ! i) = Some r' \<longrightarrow>
        robotsCache (run_crawl W startUrl t0)
          (ev_url (fetch_log (run_crawl W startUrl t0) ! i)) \<noteq> None \<and>
        (\<not> ok r' \<longrightarrow>
           robotsCache (run_crawl W startUrl t0)
             (ev_url (fetch_log (run_crawl W startUrl t0) ! i)) = Some True)) \<and>
     (i < j \<and> j < length (fetch_log (run_crawl W startUrl t0)) \<and>
      ev_kind (fetch_log (run_crawl W startUrl t0) ! i) = RobotsFetch \<and>
      robots_reply W i (fetch_log (run_crawl W startUrl t0) ! i) = Some r' \<longrightarrow>
        \<not> (ev_kind (fetch_log (run_crawl W startUrl t0) ! j) = RobotsFetch \<and>
           ev_url (fetch_log (run_crawl W startUrl t0) ! j) =
             ev_url (fetch_log (run_crawl W startUrl t0) ! i)))"
proof -
  let ?L = "fetch_log (run_crawl W startUrl t0)"
  have 1: "robots_fetches (new_events st (snd (isAllowedByRobots W u st))) = [robots_url uo]"
    if "robotsCache st (robots_url uo) = None"
  proof -
    from that assms have "robots_events W u st =
        [\<lparr>ev_time = now st, ev_url = robots_url uo, ev_kind = RobotsFetch,
          ev_sent = \<not> aborted st\<rparr>]"
      by (simp add: robots_events_def)
    then show ?thesis
      by (simp add: new_events_append [OF isAllowedByRobots_log] log_filters_simps)
  qed
  have 2: "fst (isAllowedByRobots W u st) \<and>
        robotsCache (snd (isAllowedByRobots W u st)) (robots_url uo) = Some True"
    if "robotsCache st (robots_url uo) = None \<and>
      fst (fetch W RobotsFetch None (robots_url uo) st) = Inr r \<and> \<not> ok r"
    using that assms by (simp add: robots_fetch_not_ok)
  have 3: "fst (isAllowedByRobots W u st) \<and>
        robotsCache (snd (isAllowedByRobots W u st)) = robotsCache st"
    if "robotsCache st (robots_url uo) = None \<and>
      fst (fetch W RobotsFetch None (robots_url uo) st) = Inl e"
    using that assms by (simp add: robots_fetch_failed fetch_frame)
  have 4: "isAllowedByRobots W u st = (b, st)" if "robotsCache st (robots_url uo) = Some b"
    using that assms by (simp add: robots_cached)
  note 5 = fetch_robots_reply [of W "robots_url uo" st r]
  have inv: "robots_settled W (run_crawl W startUrl t0)" by (rule robots_settled_run)
  have 6: "robotsCache (run_crawl W startUrl t0) (ev_url (?L ! i)) \<noteq> None \<and>
        (\<not> ok r' \<longrightarrow> robotsCache (run_crawl W startUrl t0) (ev_url (?L ! i)) = Some True)"
    if "i < length ?L \<and> ev_kind (?L ! i) = RobotsFetch \<and> robots_reply W i (?L ! i) = Some r'"
    using inv that unfolding robots_settled_def by blast
  have 7: "\<not> (ev_kind (?L ! j) = RobotsFetch \<and> ev_url (?L ! j) = ev_url (?L ! i))"
    if h: "i < j \<and> j < length ?L \<and> ev_kind (?L ! i) = RobotsFetch \<and>
      robots_reply W i (?L ! i) = Some r'"
  proof -
    from h have "i < length ?L" by simp
    with inv h
    have "\<forall>j. i < j \<longrightarrow> j < length ?L \<longrightarrow> ev_kind (?L ! j) = RobotsFetch \<longrightarrow>
             ev_url (?L ! j) \<noteq> ev_url (?L ! i)"
      unfolding robots_settled_def by blast
    with h show ?thesis by blast
  qed
  from 1 2 3 4 5 6 7 show ?thesis by blast
qed

theorem robots_gate_fail_open_witness:
  "parse_url world_robots_404 seed_url = Some home_url_obj \<and>
   robots_url home_url_obj = ''https://example.com/robots.txt'' \<and>
   robotsCache (start_state seed_url 0) (robots_url home_url_obj) = None \<and>
   fst (fetch world_robots_404 RobotsFetch None (robots_url home_url_obj) (start_state seed_url 0))
     = Inr not_found \<and>
   \<not> ok not_found \<and>
   robots_fetches (new_events (start_state seed_url 0)
       (snd (isAllowedByRobots world_robots_404 seed_url (start_state seed_url 0))))
     = [robots_url home_url_obj] \<and>
   fst (isAllowedByRobots world_robots_404 seed_url (start_state seed_url 0)) \<and>
   robotsCache (snd (isAllowedByRobots world_robots_404 seed_url (start_state seed_url 0)))
     (robots_url home_url_obj) = Some True \<and>
   isAllowedByRobots world_robots_404 seed_url
     (snd (isAllowedByRobots world_robots_404 seed_url (start_state seed_url 0))) =
     (True, snd (isAllowedByRobots world_robots_404 seed_url (start_state seed_url 0))) \<and>
   robots_reply world_robots_404 (length (fetch_log (start_state seed_url 0)))
     (robots_event (robots_url home_url_obj) (start_state seed_url 0)) = Some not_found \<and>
   parse_url world_robots_down seed_url = Some home_url_obj \<and>
   fst (fetch world_robots_down RobotsFetch None (robots_url home_url_obj) (start_state seed_url 0))
     = Inl NetworkError \<and>
   fst (isAllowedByRobots world_robots_down seed_url (start_state seed_url 0)) \<and>
   robotsCache (snd (isAllowedByRobots world_robots_down seed_url (start_state seed_url 0)))
     = robotsCache (start_state seed_url 0) \<and>
   parse_url world_two_schemes seed_url = Some home_url_obj \<and>
   (0::nat) < 3 \<and>
   3 < length (fetch_log (run_crawl world_two_schemes seed_url 0)) \<and>
   ev_kind (fetch_log (run_crawl world_two_schemes seed_url 0) ! 0) = RobotsFetch \<and>
   robots_reply world_two_schemes 0 (fetch_log (run_crawl world_two_schemes seed_url 0) ! 0)
     = Some not_found \<and>
   robotsCache (run_crawl world_two_schemes seed_url 0)
     (ev_url (fetch_log (run_crawl world_two_schemes seed_url 0) ! 0)) = Some True \<and>
   ev_kind (fetch_log (run_crawl world_two_schemes seed_url 0) ! 3) = RobotsFetch \<and>
   ev_url (fetch_log (run_crawl world_two_schemes seed_url 0) ! 3) \<noteq>
     ev_url (fetch_log (run_crawl world_two_schemes seed_url 0) ! 0)"
proof -
  let ?s = "start_state seed_url 0"
  let ?k = "robots_url home_url_obj"
  let ?V = world_two_schemes
  let ?L = "fetch_log (run_crawl ?V seed_url 0)"
  have p1: "parse_url world_robots_404 seed_url = Some home_url_obj" by code_simp
  have p2: "parse_url world_robots_down seed_url = Some home_url_obj" by code_simp
  have p3: "parse_url ?V seed_url = Some home_url_obj" by code_simp
  have k: "?k = ''https://example.com/robots.txt''" by code_simp
  have n: "robotsCache ?s ?k = None" by (simp add: start_state_def fresh_def)
  have f1: "fst (fetch world_robots_404 RobotsFetch None ?k ?s) = Inr not_found" by code_simp
  have f2: "fst (fetch world_robots_down RobotsFetch None ?k ?s) = Inl NetworkError" by code_simp
  have nk: "\<not> ok not_found" by (simp add: ok_def not_found_def)
  note t1 = robots_gate_fail_open [OF p1, where st = ?s and r = not_found]
  from t1 n f1 nk
  have a: "robots_fetches (new_events ?s (snd (isAllowedByRobots world_robots_404 seed_url ?s))) = [?k]"
    and b: "fst (isAllowedByRobots world_robots_404 seed_url ?s)"
    and c: "robotsCache (snd (isAllowedByRobots world_robots_404 seed_url ?s)) ?k = Some True"
    and rr: "robots_reply world_robots_404 (length (fetch_log ?s)) (robots_event ?k ?s)
               = Some not_found"
    by blast+
  let ?c = "snd (isAllowedByRobots world_robots_404 seed_url ?s)"
  from robots_gate_fail_open [OF p1, where st = ?c and b = True] c
  have d: "isAllowedByRobots world_robots_404 seed_url ?c = (True, ?c)"
    by blast
  from robots_gate_fail_open [OF p2, where st = ?s and e = NetworkError] n f2
  have e: "fst (isAllowedByRobots world_robots_down seed_url ?s)"
    and f: "robotsCache (snd (isAllowedByRobots world_robots_down seed_url ?s)) = robotsCache ?s"
    by blast+
  have lt: "(0::nat) < 3" by simp
  have ln: "3 < length ?L" by code_simp
  have k0: "ev_kind (?L ! 0) = RobotsFetch" by code_simp
  have k3: "ev_kind (?L ! 3) = RobotsFetch" by code_simp
  have r0: "robots_reply ?V 0 (?L ! 0) = Some not_found" by code_simp
  note t3 = robots_gate_fail_open
    [OF p3, where startUrl = seed_url and ?t0.0 = 0 and i = 0 and j = 3 and r' = not_found]
  have l0: "0 < length ?L" by (rule less_trans [OF lt ln])
  from t3 lt ln l0 k0 r0 nk
  have g: "robotsCache (run_crawl ?V seed_url 0) (ev_url (?L ! 0)) = Some True"
    and h: "\<not> (ev_kind (?L ! 3) = RobotsFetch \<and> ev_url (?L ! 3) = ev_url (?L ! 0))"
    by blast+
  from h k3 have h': "ev_url (?L ! 3) \<noteq> ev_url (?L ! 0)" by simp
  show ?thesis
    by (intro conjI p1 k n f1 nk a b c d rr p2 f2 e f p3 lt ln k0 r0 g k3 h')
qed

subsection \<open>C10: two requests for every recorded page\<close>

text \<open>
  C10. When an iteration of the worker records a page whose depth is below
  \<open>maxDepth\<close>, it adds exactly one rate-limiter dispatch, and the calls of \<open>fetch\<close>
  it makes other than for robots.txt are two, both for the page's URL and both sent: the
  first from \<open>crawlPage\<close>, the second from \<open>extractLinks\<close>.
\<close>

theorem page_fetched_twice:
  assumes "loop_cond W st" and "queue st = item # rest"
    and "index (worker_iter W st) \<noteq> index st"
    and "depth item < maxDepth (config W)"
  shows "map ev_url (non_robots (new_events st (worker_iter W st))) = [url item, url item] \<and>
         map ev_kind (non_robots (new_events st (worker_iter W st))) = [PageFetch, LinkFetch] \<and>
         map ev_sent (non_robots (new_events st (worker_iter W st))) = [True, True] \<and>
         gate_log (worker_iter W st) = gate_log st @ [lastRequestTime (worker_iter W st)]"
proof -
  let ?g = "gate W (st\<lparr>queue := rest\<rparr>)"
  let ?u = "url item"
  let ?c = "crawlPage W ?u (depth item) (referrer item) 0 ?g"
  let ?r = "requestFn W item ?g"
  have nv: "?u \<notin> visited st"
    using assms(2,3) by (cases "?u \<in> visited st") (simp_all add: worker_iter_skip)
  have wi: "worker_iter W st =
      delay W 100 (case fst ?r of Some e \<Rightarrow> handleCrawlError ?u e (snd ?r) | None \<Rightarrow> snd ?r)"
    using assms(2) nv by (rule worker_iter_run)
  have ix: "index (worker_iter W st) = index (snd ?r)"
    by (simp add: wi delay_frame handleCrawlError_frame split: option.splits)
  have gi: "index ?g = index st" by (simp add: gate_frame)
  obtain pd where pd: "fst ?c = Inr (Some pd)"
  proof (cases "fst ?c")
    case (Inl e)
    then have "index (snd ?r) = index st"
      by (simp add: requestFn_def case_prod_beta crawlPage_frame gi)
    with ix assms(3) show ?thesis by simp
  next
    case (Inr po)
    show ?thesis
    proof (cases po)
      case None
      with Inr have "index (snd ?r) = index st"
        by (simp add: requestFn_def case_prod_beta crawlPage_frame gi)
      with ix assms(3) show ?thesis by simp
    next
      case (Some p)
      with Inr that show ?thesis by simp
    qed
  qed
  let ?s2 = "(snd ?c)\<lparr>index := index (snd ?c) @ [pd], processed := processed (snd ?c) + 1\<rparr>"
  let ?x = "extractLinks W ?u (depth item + 1) ?s2"
  have r: "?r = (None, (snd ?x)\<lparr>queue := queue (snd ?x) @ fst ?x\<rparr>)"
    using pd assms(4) by (simp add: requestFn_def case_prod_beta Let_def)
  note rec = crawlPage_recorded [OF pd]
  have lg: "fetch_log (worker_iter W st) =
      fetch_log st @ check_events W ?u ?g @
        [page_event ?u (snd (robots_check W ?u ?g)), link_event ?u ?s2]"
    by (simp add: wi r delay_frame extractLinks_log rec(5) gate_frame)
  have ne: "new_events st (worker_iter W st) =
      check_events W ?u ?g @ [page_event ?u (snd (robots_check W ?u ?g)), link_event ?u ?s2]"
    using lg by (rule new_events_append)
  have nr: "non_robots (new_events st (worker_iter W st)) =
      [page_event ?u (snd (robots_check W ?u ?g)), link_event ?u ?s2]"
    by (simp add: ne non_robots_simps)
  have ab: "\<not> aborted (snd (robots_check W ?u ?g))" "\<not> aborted ?s2"
    using rec(3,4) by simp_all
  have gl: "gate_log (worker_iter W st) = gate_log st @ [lastRequestTime (worker_iter W st)]"
    using gate_log_gate [of W "st\<lparr>queue := rest\<rparr>"]
    by (simp add: wi r delay_frame extractLinks_frame crawlPage_frame)
  show ?thesis
    using nr ab gl by (simp add: page_event_def link_event_def)
qed

lemma world_changing_first_iter:
  "index (worker_iter world_changing (start_state seed_url 0)) \<noteq> index (start_state seed_url 0)"
  by code_simp

theorem page_fetched_twice_witness:
  "loop_cond world_changing (start_state seed_url 0) \<and>
   queue (start_state seed_url 0) = seed_item seed_url # [] \<and>
   index (worker_iter world_changing (start_state seed_url 0)) \<noteq> index (start_state seed_url 0) \<and>
   depth (seed_item seed_url) < maxDepth (config world_changing) \<and>
   map ev_url (non_robots (new_events (start_state seed_url 0)
       (worker_iter world_changing (start_state seed_url 0)))) = [seed_url, seed_url] \<and>
   map ev_kind (non_robots (new_events (start_state seed_url 0)
       (worker_iter world_changing (start_state seed_url 0)))) = [PageFetch, LinkFetch] \<and>
   map linkCount (index (worker_iter world_changing (start_state seed_url 0))) = [3] \<and>
   queue (worker_iter world_changing (start_state seed_url 0)) = []"
proof -
  let ?s = "start_state seed_url 0"
  have q: "queue ?s = seed_item seed_url # []" by (simp add: start_state_def)
  have lc: "loop_cond world_changing ?s" by code_simp
  have d: "depth (seed_item seed_url) < maxDepth (config world_changing)"
    by (simp add: seed_item_def world_changing_def default_config_def)
  have l: "map linkCount (index (worker_iter world_changing ?s)) = [3]" by code_simp
  have e: "queue (worker_iter world_changing ?s) = []" by code_simp
  from page_fetched_twice [OF lc q world_changing_first_iter d] lc q world_changing_first_iter d l e
  show ?thesis by (simp add: seed_item_def)
qed

end
